theory Spec2Isabelle
  imports Main "HOL-Library.Word"
begin

unbundle bit_operations_syntax

section \<open>Platform\<close>

text \<open>
  The allocator is embedded for an LP64 platform (x86-64 or AArch64 with glibc):
  \<open>size_t\<close> and pointers are 64-bit words whose arithmetic wraps around, and
  \<open>alignof(max_align_t)\<close> is 16. The page size is what \<open>sysconf(_SC_PAGE_SIZE)\<close>
  answers; it is a parameter \<open>page_size\<close> of every function that reaches
  \<open>align_to_page\<close>. A nullable pointer is a \<open>ptr option\<close>, \<open>None\<close> being
  \<open>nullptr\<close>.
\<close>

type_synonym size_t = "64 word"
type_synonym ptr = "64 word"
type_synonym byte = "8 word"

definition alignof_max_align_t :: size_t where
  "alignof_max_align_t = 16"

section \<open>General purpose helper functions and macros\<close>

definition is_power_of_two :: "size_t \<Rightarrow> bool" where
  "is_power_of_two v \<longleftrightarrow> v \<noteq> 0 \<and> v AND (v - 1) = 0"

text \<open>The macro \<open>max(a, b)\<close> is \<^const>\<open>max\<close> on words (unsigned order).\<close>

definition align :: "size_t \<Rightarrow> size_t \<Rightarrow> size_t" where
  "align n alignment =
     (if alignment > 0 then (let a = alignment - 1 in (n + a) AND NOT a) else n)"

definition align_to_page :: "size_t \<Rightarrow> size_t \<Rightarrow> size_t" where
  "align_to_page page_size n = align n page_size"

subsection \<open>The memory provider\<close>

text \<open>
  Every way the allocator stops without returning to its caller is an error value:
  \<open>Exit\<close> is \<open>perror\<close> followed by \<open>exit(1)\<close> in \<open>alloc_mem\<close>;
  \<open>Assertion_failed\<close> is a failing \<open>assert\<close> of \<open>region_alloc\<close>;
  \<open>Invalid_pointer\<close> is the dereference of a \<open>Region*\<close> at which no region lives.
\<close>

datatype error = Exit | Assertion_failed | Invalid_pointer

type_synonym block = "ptr \<times> size_t"

text \<open>Two byte ranges, each given by its first address and its length, do not overlap.\<close>

definition separate :: "block \<Rightarrow> block \<Rightarrow> bool" where
  "separate b c \<longleftrightarrow>
     unat (fst b) + unat (snd b) \<le> unat (fst c) \<or> unat (fst c) + unat (snd c) \<le> unat (fst b)"

text \<open>
  Modelled from the spec: the operating system's \<open>mmap\<close> is not part of the sources.
  The spec's Memory Provider obtains a page-aligned block of at least the requested
  size, or fails. The address the kernel picks is the input \<open>answer\<close> (\<open>None\<close> when
  the kernel refuses); the model accepts it only if it is what an anonymous private
  mapping can be: the length is not zero (\<open>EINVAL\<close> otherwise), the address is a
  non-null multiple of the page size, the block lies inside the address space, and it
  overlaps none of the blocks \<open>mapped\<close> so far.
\<close>

definition mmap :: "size_t \<Rightarrow> block list \<Rightarrow> ptr option \<Rightarrow> size_t \<Rightarrow> ptr option" where
  "mmap page_size mapped answer len =
     (case answer of
        None \<Rightarrow> None
      | Some p \<Rightarrow>
          if len \<noteq> 0 \<and> p \<noteq> 0 \<and> unat p mod unat page_size = 0
             \<and> unat p + unat len \<le> 2 ^ 64
             \<and> list_all (separate (p, len)) mapped
          then Some p else None)"

definition alloc_mem ::
  "size_t \<Rightarrow> block list \<Rightarrow> ptr option \<Rightarrow> size_t \<Rightarrow> error + (ptr \<times> block list)" where
  "alloc_mem page_size mapped answer sz =
     (case mmap page_size mapped answer sz of
        None \<Rightarrow> Inl Exit
      | Some result \<Rightarrow> Inr (result, (result, sz) # mapped))"

section \<open>Arena and Region structures\<close>

text \<open>
  \<open>struct _Region\<close>. The payload \<open>data\<close> is indexed by the offset into it; field
  \<open>next\<close> is named \<open>next_region\<close> here.
\<close>

record Region =
  next_region :: "ptr option"
  tail :: size_t
  capacity :: size_t
  data :: "size_t \<Rightarrow> byte"

text \<open>\<open>offsetof(Region, data)\<close>: a pointer and two \<open>size_t\<close>.\<close>

definition REGION_HEADER_SIZE :: size_t where
  "REGION_HEADER_SIZE = 24"

text \<open>\<open>offsetof(Arena, first)\<close>: a pointer and one \<open>size_t\<close>.\<close>

definition FIRST_OFFSET :: size_t where
  "FIRST_OFFSET = 16"

definition ARENA_HEADER_SIZE :: size_t where
  "ARENA_HEADER_SIZE = FIRST_OFFSET + REGION_HEADER_SIZE"

text \<open>
  The memory of one arena. \<open>arena\<close> is the \<open>Arena*\<close> handle, \<open>last_region\<close> and
  \<open>new_region_capacity\<close> are the fields \<open>arena->last\<close> and
  \<open>arena->new_region_capacity\<close>, and \<open>regions\<close> is the store of the \<open>Region\<close>
  objects by address: the embedded \<open>arena->first\<close> lives at \<open>arena + FIRST_OFFSET\<close>.
  \<open>mapped\<close> lists the blocks obtained from \<open>mmap\<close>.
\<close>

record state =
  mapped :: "block list"
  arena :: ptr
  last_region :: ptr
  new_region_capacity :: size_t
  regions :: "ptr \<rightharpoonup> Region"

definition first_region :: "state \<Rightarrow> ptr" where
  "first_region s = arena s + FIRST_OFFSET"

section \<open>Internal functions\<close>

definition create_region ::
  "size_t \<Rightarrow> ptr option \<Rightarrow> state \<Rightarrow> size_t \<Rightarrow> error + (ptr \<times> state)" where
  "create_region page_size answer s cap =
     (let mem_size = align_to_page page_size (cap + REGION_HEADER_SIZE) in
      case alloc_mem page_size (mapped s) answer mem_size of
        Inl e \<Rightarrow> Inl e
      | Inr (region, mapped') \<Rightarrow>
          Inr (region,
            s\<lparr>mapped := mapped',
              regions := (regions s)(region \<mapsto>
                \<lparr>next_region = None, tail = 0,
                 capacity = mem_size - REGION_HEADER_SIZE, data = (\<lambda>_. 0)\<rparr>)\<rparr>))"

definition region_alloc ::
  "state \<Rightarrow> ptr \<Rightarrow> size_t \<Rightarrow> size_t \<Rightarrow> error + (ptr option \<times> state)" where
  "region_alloc s region sz alignment =
     (if \<not> sz > 0 then Inl Assertion_failed
      else if \<not> (alignment \<le> alignof_max_align_t \<and> is_power_of_two alignment)
        then Inl Assertion_failed
      else case regions s region of
        None \<Rightarrow> Inl Invalid_pointer
      | Some r \<Rightarrow>
          (let start = align (tail r) alignment in
           if start \<ge> capacity r then Inr (None, s)
           else
             (let bytes_available = capacity r - start in
              if sz > bytes_available then Inr (None, s)
              else
                Inr (Some (region + REGION_HEADER_SIZE + start),
                     s\<lparr>regions := (regions s)(region \<mapsto> r\<lparr>tail := start + sz\<rparr>)\<rparr>))))"

definition new_region_alloc ::
  "size_t \<Rightarrow> ptr option \<Rightarrow> state \<Rightarrow> size_t \<Rightarrow> size_t \<Rightarrow> error + (ptr option \<times> state)" where
  "new_region_alloc page_size answer s sz alignment =
     (case create_region page_size answer s (max sz (new_region_capacity s)) of
        Inl e \<Rightarrow> Inl e
      | Inr (new_region, s1) \<Rightarrow>
          (case regions s1 (last_region s1) of
             None \<Rightarrow> Inl Invalid_pointer
           | Some l \<Rightarrow>
               (let s2 = s1\<lparr>regions := (regions s1)(last_region s1 \<mapsto>
                                l\<lparr>next_region := Some new_region\<rparr>)\<rparr>;
                    s3 = s2\<lparr>last_region := new_region\<rparr>
                in region_alloc s3 new_region sz alignment)))"

section \<open>Public API\<close>

definition create_arena :: "size_t \<Rightarrow> ptr option \<Rightarrow> size_t \<Rightarrow> error + state" where
  "create_arena page_size answer cap =
     (let mem_size = align_to_page page_size (cap + ARENA_HEADER_SIZE) in
      case alloc_mem page_size [] answer mem_size of
        Inl e \<Rightarrow> Inl e
      | Inr (a, mapped') \<Rightarrow>
          Inr \<lparr>mapped = mapped', arena = a, last_region = a + FIRST_OFFSET,
               new_region_capacity = cap,
               regions = [a + FIRST_OFFSET \<mapsto>
                 \<lparr>next_region = None, tail = 0,
                  capacity = mem_size - ARENA_HEADER_SIZE, data = (\<lambda>_. 0)\<rparr>]\<rparr>)"

definition set_region_capacity :: "state \<Rightarrow> size_t \<Rightarrow> state" where
  "set_region_capacity s cap = s\<lparr>new_region_capacity := cap\<rparr>"

text \<open>\<open>_arena_alloc\<close> (an Isabelle name cannot start with an underscore).\<close>

definition arena_alloc ::
  "size_t \<Rightarrow> ptr option \<Rightarrow> state \<Rightarrow> size_t \<Rightarrow> size_t \<Rightarrow> error + (ptr option \<times> state)" where
  "arena_alloc page_size answer s sz alignment =
     (case region_alloc s (last_region s) sz alignment of
        Inl e \<Rightarrow> Inl e
      | Inr (Some result, s') \<Rightarrow> Inr (Some result, s')
      | Inr (None, s') \<Rightarrow> new_region_alloc page_size answer s' sz alignment)"

text \<open>
  The loop of \<open>_arena_fit\<close> follows the \<open>next\<close> pointers through the store, which
  holds no promise that they end: a run that never leaves the loop is \<open>None\<close>.
\<close>

partial_function (option) fit_loop ::
  "state \<Rightarrow> ptr option \<Rightarrow> size_t \<Rightarrow> size_t \<Rightarrow> (error + (ptr option \<times> state)) option" where
  "fit_loop s region sz alignment =
     (case region of
        None \<Rightarrow> Some (Inr (None, s))
      | Some r \<Rightarrow>
          (case region_alloc s r sz alignment of
             Inl e \<Rightarrow> Some (Inl e)
           | Inr (Some result, s') \<Rightarrow> Some (Inr (Some result, s'))
           | Inr (None, s') \<Rightarrow>
               (case regions s' r of
                  None \<Rightarrow> Some (Inl Invalid_pointer)
                | Some reg \<Rightarrow> fit_loop s' (next_region reg) sz alignment)))"

definition arena_fit ::
  "size_t \<Rightarrow> ptr option \<Rightarrow> state \<Rightarrow> size_t \<Rightarrow> size_t
     \<Rightarrow> (error + (ptr option \<times> state)) option" where
  "arena_fit page_size answer s sz alignment =
     (case fit_loop s (Some (first_region s)) sz alignment of
        None \<Rightarrow> None
      | Some (Inl e) \<Rightarrow> Some (Inl e)
      | Some (Inr (Some result, s')) \<Rightarrow> Some (Inr (Some result, s'))
      | Some (Inr (None, s')) \<Rightarrow> Some (new_region_alloc page_size answer s' sz alignment))"

section \<open>Sequences of calls\<close>

text \<open>
  A client's call on the arena, and a run of calls. Each call comes with the answer
  \<open>mmap\<close> would give during it. A run stops at the first error; it returns the
  blocks handed out (pointer and requested size, in order) and the final memory.
\<close>

datatype call = Alloc size_t size_t | Fit size_t size_t | Set_region_capacity size_t

fun do_call ::
  "size_t \<Rightarrow> ptr option \<Rightarrow> state \<Rightarrow> call \<Rightarrow> (error + (block list \<times> state)) option" where
  "do_call page_size answer s (Alloc sz alignment) =
     (case arena_alloc page_size answer s sz alignment of
        Inl e \<Rightarrow> Some (Inl e)
      | Inr (None, s') \<Rightarrow> Some (Inr ([], s'))
      | Inr (Some p, s') \<Rightarrow> Some (Inr ([(p, sz)], s')))"
| "do_call page_size answer s (Fit sz alignment) =
     (case arena_fit page_size answer s sz alignment of
        None \<Rightarrow> None
      | Some (Inl e) \<Rightarrow> Some (Inl e)
      | Some (Inr (None, s')) \<Rightarrow> Some (Inr ([], s'))
      | Some (Inr (Some p, s')) \<Rightarrow> Some (Inr ([(p, sz)], s')))"
| "do_call page_size answer s (Set_region_capacity cap) =
     Some (Inr ([], set_region_capacity s cap))"

fun run ::
  "size_t \<Rightarrow> state \<Rightarrow> (ptr option \<times> call) list \<Rightarrow> (error + (block list \<times> state)) option" where
  "run page_size s [] = Some (Inr ([], s))"
| "run page_size s ((answer, c) # cs) =
     (case do_call page_size answer s c of
        None \<Rightarrow> None
      | Some (Inl e) \<Rightarrow> Some (Inl e)
      | Some (Inr (bs, s')) \<Rightarrow>
          (case run page_size s' cs of
             None \<Rightarrow> None
           | Some (Inl e) \<Rightarrow> Some (Inl e)
           | Some (Inr (bs', s'')) \<Rightarrow> Some (Inr (bs @ bs', s''))))"

section \<open>Specification-level notions\<close>

text \<open>
  The spec's \<open>round_up(tail, alignment)\<close>: the least multiple of the alignment that is
  not below the offset, on unbounded naturals.
\<close>

definition round_up :: "nat \<Rightarrow> nat \<Rightarrow> nat" where
  "round_up n a = ((n + (a - 1)) div a) * a"

text \<open>
  The data-model invariant of a region: the cursor is inside the payload, and header
  and payload together lie in the address space.
\<close>

definition region_ok :: "Region \<Rightarrow> bool" where
  "region_ok r \<longleftrightarrow>
     tail r \<le> capacity r \<and> unat (capacity r) + unat REGION_HEADER_SIZE \<le> 2 ^ 64"

text \<open>
  A request the assertions of \<open>region_alloc\<close> accept: a size that is not zero and a
  power-of-two alignment of at most \<open>alignof(max_align_t)\<close>.
\<close>

definition valid_request :: "size_t \<Rightarrow> size_t \<Rightarrow> bool" where
  "valid_request sz alignment \<longleftrightarrow>
     0 < sz \<and> alignment \<le> alignof_max_align_t \<and> is_power_of_two alignment"

text \<open>The arena right after \<open>create_arena(64)\<close> on 4096-byte pages, mapped at \<open>0x10000\<close>.\<close>

definition example_arena :: state where
  "example_arena =
     \<lparr>mapped = [(0x10000, 4096)], arena = 0x10000, last_region = 0x10010,
      new_region_capacity = 64,
      regions = [0x10010 \<mapsto>
        \<lparr>next_region = None, tail = 0, capacity = 4056, data = (\<lambda>_. 0)\<rparr>]\<rparr>"

text \<open>
  The same arena after \<open>_arena_alloc(4051, 1)\<close>, which leaves 5 bytes in the first
  region, and after a further \<open>_arena_alloc(4022, 1)\<close>, which makes the arena grow by a
  region mapped at \<open>0x20000\<close> and leaves 50 bytes in it.
\<close>

definition example_full :: state where
  "example_full =
     example_arena\<lparr>regions := [0x10010 \<mapsto>
       \<lparr>next_region = None, tail = 4051, capacity = 4056, data = (\<lambda>_. 0)\<rparr>]\<rparr>"

definition example_chain :: state where
  "example_chain =
     \<lparr>mapped = [(0x20000, 4096), (0x10000, 4096)], arena = 0x10000, last_region = 0x20000,
      new_region_capacity = 64,
      regions = [0x10010 \<mapsto>
          \<lparr>next_region = Some 0x20000, tail = 4051, capacity = 4056, data = (\<lambda>_. 0)\<rparr>,
        0x20000 \<mapsto>
          \<lparr>next_region = None, tail = 4022, capacity = 4072, data = (\<lambda>_. 0)\<rparr>]\<rparr>"

text \<open>
  What \<open>create_arena(SIZE_MAX)\<close> returns on the same pages: the sum of the capacity
  and the header wraps around to 39, so that one page is mapped.
\<close>

definition example_wrapped :: state where
  "example_wrapped = example_arena\<lparr>new_region_capacity := 0xFFFFFFFFFFFFFFFF\<rparr>"

text \<open>
  The arena of \<open>create_arena(64)\<close> after \<open>_arena_alloc(SIZE_MAX - 15, 1)\<close>: the
  size of the new region wraps around to one page, and the request does not fit in it.
\<close>

definition example_stranded :: state where
  "example_stranded =
     \<lparr>mapped = [(0x20000, 4096), (0x10000, 4096)], arena = 0x10000, last_region = 0x20000,
      new_region_capacity = 64,
      regions = [0x10010 \<mapsto>
          \<lparr>next_region = Some 0x20000, tail = 0, capacity = 4056, data = (\<lambda>_. 0)\<rparr>,
        0x20000 \<mapsto>
          \<lparr>next_region = None, tail = 0, capacity = 4072, data = (\<lambda>_. 0)\<rparr>]\<rparr>"

text \<open>
  The arena of \<open>create_arena(64)\<close> after a growth for 5000 bytes, and after
  \<open>set_region_capacity(8192)\<close> followed by a growth for 100 bytes.
\<close>

definition example_second :: state where
  "example_second =
     \<lparr>mapped = [(0x20000, 8192), (0x10000, 4096)], arena = 0x10000, last_region = 0x20000,
      new_region_capacity = 64,
      regions = [0x10010 \<mapsto>
          \<lparr>next_region = Some 0x20000, tail = 0, capacity = 4056, data = (\<lambda>_. 0)\<rparr>,
        0x20000 \<mapsto>
          \<lparr>next_region = None, tail = 5000, capacity = 8168, data = (\<lambda>_. 0)\<rparr>]\<rparr>"

definition example_resized :: state where
  "example_resized =
     \<lparr>mapped = [(0x20000, 12288), (0x10000, 4096)], arena = 0x10000, last_region = 0x20000,
      new_region_capacity = 8192,
      regions = [0x10010 \<mapsto>
          \<lparr>next_region = Some 0x20000, tail = 0, capacity = 4056, data = (\<lambda>_. 0)\<rparr>,
        0x20000 \<mapsto>
          \<lparr>next_region = None, tail = 100, capacity = 12264, data = (\<lambda>_. 0)\<rparr>]\<rparr>"

text \<open>
  A region has sufficient contiguous free space for a request at its alignment: the
  request fits between the rounded-up cursor and the capacity.
\<close>

definition has_room :: "Region \<Rightarrow> size_t \<Rightarrow> size_t \<Rightarrow> bool" where
  "has_room reg sz alignment \<longleftrightarrow>
     round_up (unat (tail reg)) (unat alignment) + unat sz \<le> unat (capacity reg)"

section \<open>The invariant of the arena\<close>

text \<open>
  What is asked of the page size: a power of two, as \<open>align\<close> requires of its
  alignment, and large enough for a page to hold the headers.
\<close>

definition page_ok :: "size_t \<Rightarrow> bool" where
  "page_ok page_size \<longleftrightarrow> is_power_of_two page_size \<and> 64 \<le> page_size"

text \<open>
  \<open>chain m p rs\<close>: following the \<open>next\<close> links in the store \<open>m\<close> from the pointer
  \<open>p\<close> visits exactly the regions \<open>rs\<close>, in this order, and then reaches
  \<open>nullptr\<close>.
\<close>

fun chain :: "(ptr \<rightharpoonup> Region) \<Rightarrow> ptr option \<Rightarrow> ptr list \<Rightarrow> bool" where
  "chain m p [] \<longleftrightarrow> p = None"
| "chain m p (r # rs) \<longleftrightarrow>
     p = Some r \<and> (case m r of None \<Rightarrow> False | Some reg \<Rightarrow> chain m (next_region reg) rs)"

text \<open>
  The loop of \<open>_arena_fit\<close> unrolled along a list of regions.
\<close>

fun fit_list ::
  "state \<Rightarrow> ptr list \<Rightarrow> size_t \<Rightarrow> size_t \<Rightarrow> error + (ptr option \<times> state)" where
  "fit_list s [] sz alignment = Inr (None, s)"
| "fit_list s (r # rs) sz alignment =
     (case region_alloc s r sz alignment of
        Inl e \<Rightarrow> Inl e
      | Inr (Some result, s') \<Rightarrow> Inr (Some result, s')
      | Inr (None, s') \<Rightarrow> fit_list s' rs sz alignment)"

text \<open>
  The block a region was mapped in: the arena's own block for the embedded first region,
  the region's block otherwise.
\<close>

definition block_of :: "state \<Rightarrow> ptr \<Rightarrow> block" where
  "block_of s r =
     (case regions s r of
        None \<Rightarrow> (r, 0)
      | Some reg \<Rightarrow>
          if r = first_region s then (arena s, capacity reg + ARENA_HEADER_SIZE)
          else (r, capacity reg + REGION_HEADER_SIZE))"

text \<open>
  No two byte ranges of a list overlap.
\<close>

fun pairwise_separate :: "block list \<Rightarrow> bool" where
  "pairwise_separate [] \<longleftrightarrow> True"
| "pairwise_separate (b # bs) \<longleftrightarrow> list_all (separate b) bs \<and> pairwise_separate bs"

text \<open>
  A region of the store is well placed: its cursor is inside the payload, its address is a
  multiple of 16, and its header and payload end where its block ends, inside the address
  space.
\<close>

definition placed :: "state \<Rightarrow> ptr \<Rightarrow> bool" where
  "placed s r \<longleftrightarrow>
     (case regions s r of
        None \<Rightarrow> False
      | Some reg \<Rightarrow>
          tail reg \<le> capacity reg
          \<and> unat r mod 16 = 0
          \<and> unat r + unat REGION_HEADER_SIZE + unat (capacity reg) \<le> 2 ^ 64
          \<and> unat (fst (block_of s r)) \<le> unat r
          \<and> unat (fst (block_of s r)) + unat (snd (block_of s r))
              = unat r + unat REGION_HEADER_SIZE + unat (capacity reg))"

text \<open>
  The invariant of the arena, for the list \<open>rs\<close> of its regions in chain order: the
  chain from the first region is \<open>rs\<close>, without repetition, and ends at \<open>last\<close>; the
  store holds these regions and no other; each is well placed; the mapped blocks are the
  regions' blocks, most recent first, and do not overlap.
\<close>

definition arena_inv :: "state \<Rightarrow> ptr list \<Rightarrow> bool" where
  "arena_inv s rs \<longleftrightarrow>
     chain (regions s) (Some (first_region s)) rs \<and> distinct rs \<and> rs \<noteq> []
     \<and> last rs = last_region s \<and> dom (regions s) = set rs
     \<and> list_all (placed s) rs
     \<and> mapped s = map (block_of s) (rev rs) \<and> pairwise_separate (mapped s)"

text \<open>
  The memory after \<open>new_region_alloc\<close> has mapped a block of \<open>msz\<close> bytes at \<open>q\<close>
  and linked the new region after the last region \<open>l\<close>, before it allocates from it.
\<close>

definition grown :: "state \<Rightarrow> ptr \<Rightarrow> size_t \<Rightarrow> Region \<Rightarrow> state" where
  "grown s q msz l =
     s\<lparr>mapped := (q, msz) # mapped s,
       regions := (regions s)
         (q \<mapsto> \<lparr>next_region = None, tail = 0,
                 capacity = msz - REGION_HEADER_SIZE, data = (\<lambda>_. 0)\<rparr>,
          last_region s \<mapsto> l\<lparr>next_region := Some q\<rparr>),
       last_region := q\<rparr>"

text \<open>
  The addresses of a byte range, and the addresses the arena can still hand out: those
  outside every mapped block, and those between the cursor and the end of a region's
  payload.
\<close>

definition span :: "block \<Rightarrow> nat set" where
  "span b = {unat (fst b) ..< unat (fst b) + unat (snd b)}"

definition free_space :: "state \<Rightarrow> nat set" where
  "free_space s =
     {a. \<forall>b\<in>set (mapped s). a \<notin> span b}
     \<union> {a. \<exists>r reg. regions s r = Some reg
            \<and> unat r + 24 + unat (tail reg) \<le> a \<and> a < unat r + 24 + unat (capacity reg)}"

section \<open>Alignment arithmetic\<close>

lemma round_up_ge: "0 < a \<Longrightarrow> n \<le> round_up n a"
proof -
  assume a: "0 < a"
  have "n + (a - 1) = (n + (a - 1)) div a * a + (n + (a - 1)) mod a" by simp
  moreover have "(n + (a - 1)) mod a < a" using a by simp
  ultimately show ?thesis unfolding round_up_def by linarith
qed

lemma round_up_less: "0 < a \<Longrightarrow> round_up n a < n + a"
proof -
  assume a: "0 < a"
  have "(n + (a - 1)) div a * a \<le> n + (a - 1)" by simp
  then show ?thesis unfolding round_up_def using a by linarith
qed

lemma round_up_mod: "round_up n a mod a = 0"
  by (simp add: round_up_def)

lemma round_up_one_unit: "0 < n \<Longrightarrow> n \<le> a \<Longrightarrow> round_up n a = a"
proof -
  assume n: "0 < n" "n \<le> a"
  have "a * 1 \<le> n + (a - 1)" using n by simp
  moreover have "n + (a - 1) < a * Suc 1" using n by simp
  ultimately have "(n + (a - 1)) div a = 1"
    by (rule div_nat_eqI)
  then show ?thesis by (simp add: round_up_def)
qed

lemma pow2_nat: "0 < (n::nat) \<Longrightarrow> n AND (n - 1) = 0 \<Longrightarrow> \<exists>k. n = 2 ^ k"
proof (induction n rule: less_induct)
  case (less n)
  show ?case
  proof (cases "even n")
    case True
    then obtain m where m: "n = 2 * m" by (auto elim: evenE)
    with less.prems have m0: "0 < m" by simp
    have n1: "n - 1 = 2 * (m - 1) + 1" using m m0 by simp
    have "n AND (n - 1) = 2 * (m AND (m - 1))"
      unfolding n1 unfolding m by (subst and_nat_rec) simp
    with less.prems have "m AND (m - 1) = 0" by simp
    with less.IH [of m] m m0 obtain k where "m = 2 ^ k" by auto
    with m have "n = 2 ^ Suc k" by simp
    then show ?thesis by blast
  next
    case False
    then obtain m where m: "n = 2 * m + 1" by (auto elim: oddE)
    have "n AND (n - 1) = 2 * m"
      unfolding m by (subst and_nat_rec) simp
    with less.prems have "m = 0" by simp
    with m have "n = 2 ^ 0" by simp
    then show ?thesis by blast
  qed
qed

lemma unat_2p:
  assumes "k < 64" shows "unat ((2::size_t) ^ k) = 2 ^ k"
proof -
  have "(2::size_t) ^ k = of_nat (2 ^ k)" by simp
  then have "unat ((2::size_t) ^ k) = (2 ^ k) mod 2 ^ LENGTH(64)"
    by (simp only: unat_of_nat)
  also have "\<dots> = 2 ^ k"
  proof -
    have "(2::nat) ^ k < 2 ^ 64" using assms by (intro power_strict_increasing) simp_all
    then show ?thesis by simp
  qed
  finally show ?thesis .
qed

lemma is_power_of_twoD:
  assumes "is_power_of_two v"
  shows "\<exists>k<64. v = 2 ^ k"
proof -
  from assms have v0: "v \<noteq> 0" and va: "v AND (v - 1) = 0"
    by (simp_all add: is_power_of_two_def)
  have pos: "0 < unat v" using v0 by (simp add: unat_gt_0)
  have "unat (v - 1) = unat v - 1" using v0 by (rule unat_minus_one)
  moreover have "unat (v AND (v - 1)) = unat v AND unat (v - 1)"
    by (simp add: unsigned_and_eq)
  ultimately have "unat v AND (unat v - 1) = 0" using va by simp
  with pos obtain k where k: "unat v = 2 ^ k" using pow2_nat by blast
  have "unat v < 2 ^ 64" using unsigned_less [of v] by simp
  with k have "(2::nat) ^ k < 2 ^ 64" by simp
  then have kl: "k < 64" using power_less_imp_less_exp [of "2::nat" k 64] by simp
  have "v = of_nat (unat v)" by simp
  also have "\<dots> = 2 ^ k" unfolding k by simp
  finally show ?thesis using kl by blast
qed

lemma and_not_mask_eq: "(x::size_t) AND NOT (mask k) = push_bit k (drop_bit k x)"
  by (rule bit_eqI) (auto simp add: bit_simps)

lemma unat_and_not_mask:
  assumes "k < 64"
  shows "unat ((x::size_t) AND NOT (mask k)) = (unat x div 2 ^ k) * 2 ^ k"
proof -
  have le: "(unat x div 2 ^ k) * 2 ^ k \<le> unat x" by simp
  have lt: "unat x < 2 ^ 64" using unsigned_less [of x] by simp
  have "unat (push_bit k (drop_bit k x)) = unat (drop_bit k x * 2 ^ k)"
    by (simp add: push_bit_eq_mult)
  also have "\<dots> = (unat (drop_bit k x) * unat ((2::size_t) ^ k)) mod 2 ^ 64"
    by (simp add: unat_word_ariths)
  also have "\<dots> = ((unat x div 2 ^ k) * 2 ^ k) mod 2 ^ 64"
    using assms by (simp add: unat_drop_bit_eq drop_bit_eq_div unat_2p unat_div)
  also have "\<dots> = (unat x div 2 ^ k) * 2 ^ k"
  proof -
    have "(unat x div 2 ^ k) * 2 ^ k < 2 ^ 64" using le lt by (rule le_less_trans)
    then show ?thesis by simp
  qed
  finally show ?thesis by (simp add: and_not_mask_eq)
qed

lemma unat_align_pow2:
  assumes "is_power_of_two a"
  shows "unat (align n a) = (unat (n + (a - 1)) div unat a) * unat a"
proof -
  from is_power_of_twoD [OF assms] obtain k where k: "k < 64" "a = 2 ^ k" by blast
  have a0: "0 < a" using assms by (simp add: is_power_of_two_def word_neq_0_conv)
  have "align n a = (n + mask k) AND NOT (mask k)"
    using a0 by (simp add: align_def Let_def k(2) mask_eq_exp_minus_1)
  then have "unat (align n a) = (unat (n + mask k) div 2 ^ k) * 2 ^ k"
    by (simp only: unat_and_not_mask [OF k(1)])
  then show ?thesis
    using k by (simp add: unat_2p mask_eq_exp_minus_1)
qed

lemma align_mod:
  assumes "is_power_of_two a"
  shows "unat (align n a) mod unat a = 0"
  by (simp add: unat_align_pow2 [OF assms])

lemma unat_align:
  assumes "is_power_of_two a" and "unat n + unat a \<le> 2 ^ 64"
  shows "unat (align n a) = round_up (unat n) (unat a)"
proof -
  have a0: "a \<noteq> 0" using assms(1) by (simp add: is_power_of_two_def)
  then have pos: "0 < unat a" by (simp add: unat_gt_0)
  have m1: "unat (a - 1) = unat a - 1" using a0 by (rule unat_minus_one)
  have "unat n + unat (a - 1) < 2 ^ 64" using assms(2) pos m1 by simp
  then have "unat (n + (a - 1)) = unat n + unat (a - 1)"
    using unat_add_lem [of n "a - 1"] by simp
  then show ?thesis
    by (simp add: unat_align_pow2 [OF assms(1)] m1 round_up_def)
qed

lemma align_wrapped_zero:
  assumes pw: "is_power_of_two a" and wrap: "2 ^ 64 \<le> unat n + (unat a - 1)"
  shows "align n a = 0"
proof -
  have a0: "a \<noteq> 0" using pw by (simp add: is_power_of_two_def)
  then have pos: "0 < unat a" by (simp add: unat_gt_0)
  have m1: "unat (a - 1) = unat a - 1" using a0 by (rule unat_minus_one)
  have nlt: "unat n < 2 ^ 64" using unsigned_less [of n] by simp
  have "unat (n + (a - 1)) = unat n + unat (a - 1) - 2 ^ 64"
    using wrap m1 by (simp add: unat_plus_if_size word_size)
  also have "\<dots> < unat a" using nlt pos m1 wrap by linarith
  finally have "unat (n + (a - 1)) div unat a = 0" by simp
  then have "unat (align n a) = 0" by (simp add: unat_align_pow2 [OF pw])
  then show ?thesis by (simp add: unat_eq_zero)
qed

lemma align_nonzero_round_up:
  assumes "is_power_of_two a" and "align n a \<noteq> 0"
  shows "unat (align n a) = round_up (unat n) (unat a)"
proof (cases "unat n + unat a \<le> 2 ^ 64")
  case True
  with assms(1) show ?thesis by (rule unat_align)
next
  case False
  have "0 < unat a" using assms(1) by (simp add: is_power_of_two_def unat_gt_0)
  with False have "2 ^ 64 \<le> unat n + (unat a - 1)" by linarith
  with assms(1) have "align n a = 0" by (rule align_wrapped_zero)
  with assms(2) show ?thesis by simp
qed

lemma align_zero: "is_power_of_two a \<Longrightarrow> align 0 a = 0"
  by (simp add: align_def Let_def)

section \<open>Region allocation\<close>

lemmas eval_defs =
  create_arena_def align_to_page_def align_def alloc_mem_def mmap_def ARENA_HEADER_SIZE_def
  FIRST_OFFSET_def REGION_HEADER_SIZE_def separate_def region_alloc_def arena_alloc_def
  new_region_alloc_def create_region_def alignof_max_align_t_def is_power_of_two_def
  first_region_def arena_fit_def set_region_capacity_def valid_request_def region_ok_def

lemma create_example_arena: "create_arena 4096 (Some 0x10000) 64 = Inr example_arena"
  by (simp add: eval_defs example_arena_def)

lemma region_ok_no_wrap:
  assumes "region_ok r" and "alignment \<le> alignof_max_align_t"
  shows "unat (tail r) + unat alignment \<le> 2 ^ 64"
proof -
  have "unat (tail r) \<le> unat (capacity r)"
    using assms(1) by (simp add: region_ok_def word_le_nat_alt)
  moreover have "unat (capacity r) + 24 \<le> 2 ^ 64"
    using assms(1) by (simp add: region_ok_def REGION_HEADER_SIZE_def)
  moreover have "unat alignment \<le> 16"
    using assms(2) by (simp add: alignof_max_align_t_def word_le_nat_alt)
  ultimately show ?thesis by linarith
qed

lemma region_alloc_valid:
  assumes "valid_request sz alignment" and "regions s region = Some r"
  shows "region_alloc s region sz alignment =
     (let start = align (tail r) alignment in
      if start \<ge> capacity r then Inr (None, s)
      else if sz > capacity r - start then Inr (None, s)
      else Inr (Some (region + REGION_HEADER_SIZE + start),
                s\<lparr>regions := (regions s)(region \<mapsto> r\<lparr>tail := start + sz\<rparr>)\<rparr>))"
  using assms by (simp add: region_alloc_def valid_request_def Let_def)

lemma region_alloc_round_up:
  assumes "regions s region = Some r" and "region_ok r" and "valid_request sz alignment"
  shows "region_alloc s region sz alignment =
     (let start = round_up (unat (tail r)) (unat alignment) in
      if start \<ge> unat (capacity r) then Inr (None, s)
      else if unat sz > unat (capacity r) - start then Inr (None, s)
      else Inr (Some (region + REGION_HEADER_SIZE + of_nat start),
                s\<lparr>regions := (regions s)(region \<mapsto> r\<lparr>tail := of_nat (start + unat sz)\<rparr>)\<rparr>))"
proof -
  define st where "st = align (tail r) alignment"
  have al: "alignment \<le> alignof_max_align_t" "is_power_of_two alignment"
    using assms(3) by (simp_all add: valid_request_def)
  have st: "unat st = round_up (unat (tail r)) (unat alignment)"
    unfolding st_def using al(2) region_ok_no_wrap [OF assms(2) al(1)] by (rule unat_align)
  have st_w: "of_nat (round_up (unat (tail r)) (unat alignment)) = st"
  proof -
    have "of_nat (unat st) = st" by simp
    then show ?thesis by (simp only: st)
  qed
  have ge: "capacity r \<le> st \<longleftrightarrow> unat (capacity r) \<le> round_up (unat (tail r)) (unat alignment)"
    by (simp add: word_le_nat_alt st)
  have gt: "capacity r - st < sz \<longleftrightarrow>
      unat (capacity r) - round_up (unat (tail r)) (unat alignment) < unat sz"
    if "\<not> capacity r \<le> st"
  proof -
    from that have "st \<le> capacity r" by simp
    then have "unat (capacity r - st) = unat (capacity r) - unat st" by (rule unat_sub)
    then show ?thesis by (simp add: word_less_nat_alt st)
  qed
  show ?thesis
    unfolding region_alloc_valid [OF assms(3) assms(1)]
    by (simp add: Let_def st_def [symmetric] ge gt st_w)
qed

text \<open>
  C2. For a region that satisfies the data-model invariant and a valid request, region
  allocation computes \<open>start = round_up(tail, alignment)\<close>; it reports no space when
  \<open>start \<ge> capacity\<close>, and otherwise when \<open>size > capacity - start\<close>; otherwise it
  sets \<open>tail\<close> to \<open>start + size\<close> and returns the address of \<open>data[start]\<close>.
\<close>

theorem region_alloc_algorithm:
  assumes "regions s region = Some r" and "region_ok r" and "valid_request sz alignment"
  shows "region_alloc s region sz alignment =
     (let start = round_up (unat (tail r)) (unat alignment) in
      if start \<ge> unat (capacity r) then Inr (None, s)
      else if unat sz > unat (capacity r) - start then Inr (None, s)
      else Inr (Some (region + REGION_HEADER_SIZE + of_nat start),
                s\<lparr>regions := (regions s)(region \<mapsto> r\<lparr>tail := of_nat (start + unat sz)\<rparr>)\<rparr>))"
  using assms by (rule region_alloc_round_up)

theorem region_alloc_algorithm_witness:
  "regions example_arena 0x10010
     = Some \<lparr>next_region = None, tail = 0, capacity = 4056, data = (\<lambda>_. 0)\<rparr>
   \<and> region_ok \<lparr>next_region = None, tail = 0, capacity = 4056, data = (\<lambda>_. 0)\<rparr>
   \<and> valid_request 10 8
   \<and> region_alloc example_arena 0x10010 10 8 =
       Inr (Some 0x10028,
            example_arena\<lparr>regions := (regions example_arena)(0x10010 \<mapsto>
              \<lparr>next_region = None, tail = 10, capacity = 4056, data = (\<lambda>_. 0)\<rparr>)\<rparr>)"
proof -
  have h1: "regions example_arena 0x10010
     = Some \<lparr>next_region = None, tail = 0, capacity = 4056, data = (\<lambda>_. 0)\<rparr>"
    by (simp add: example_arena_def)
  have h2: "region_ok \<lparr>next_region = None, tail = 0, capacity = 4056, data = (\<lambda>_. 0)\<rparr>"
    by (simp add: region_ok_def REGION_HEADER_SIZE_def)
  have h3: "valid_request 10 8"
    by (simp add: valid_request_def alignof_max_align_t_def is_power_of_two_def)
  show ?thesis
    using h1 h2 h3 region_alloc_algorithm [OF h1 h2 h3]
    by (simp add: round_up_def REGION_HEADER_SIZE_def)
qed

text \<open>
  C9. When region allocation reports no space, the memory after the call is the memory
  before it: the region's \<open>tail\<close>, \<open>capacity\<close>, \<open>next\<close> link and payload are the
  same, and so is everything else.
\<close>

theorem region_alloc_no_space:
  assumes "region_alloc s region sz alignment = Inr (None, s')"
  shows "s' = s \<and> regions s' region = regions s region"
  using assms by (auto simp add: region_alloc_def Let_def split: if_splits option.splits)

theorem region_alloc_no_space_witness:
  "region_alloc example_arena 0x10010 5000 8 = Inr (None, example_arena)
   \<and> regions example_arena 0x10010 = regions example_arena 0x10010"
proof -
  have h: "region_alloc example_arena 0x10010 5000 8 = Inr (None, example_arena)"
    by (simp add: eval_defs example_arena_def)
  show ?thesis using h region_alloc_no_space [OF h] by simp
qed

section \<open>The invariant is kept\<close>

lemma chain_update_other:
  "r \<notin> set rs \<Longrightarrow> chain (m(r \<mapsto> x)) p rs = chain m p rs"
  by (induction rs arbitrary: p) (auto split: option.splits)

lemma chain_update_same_next:
  "m r = Some reg \<Longrightarrow> next_region reg' = next_region reg \<Longrightarrow>
   chain (m(r \<mapsto> reg')) p rs = chain m p rs"
  by (induction rs arbitrary: p) (auto split: option.splits)

lemma chain_mem: "chain m p rs \<Longrightarrow> r \<in> set rs \<Longrightarrow> \<exists>reg. m r = Some reg"
  by (induction rs arbitrary: p) (auto split: option.splits)

lemma chain_unique: "chain m p rs \<Longrightarrow> chain m p rs' \<Longrightarrow> rs = rs'"
proof (induction rs arbitrary: p rs')
  case Nil
  then show ?case by (cases rs') auto
next
  case (Cons r rs)
  then show ?case by (cases rs') (auto split: option.splits)
qed

lemma chain_last_next:
  "chain m p rs \<Longrightarrow> rs \<noteq> [] \<Longrightarrow> \<exists>reg. m (last rs) = Some reg \<and> next_region reg = None"
proof (induction rs arbitrary: p)
  case Nil
  then show ?case by simp
next
  case (Cons r rs)
  then show ?case by (cases rs) (auto split: option.splits)
qed

lemma chain_next_none_iff:
  "chain m p rs \<Longrightarrow> distinct rs \<Longrightarrow> r \<in> set rs \<Longrightarrow> m r = Some reg \<Longrightarrow>
   next_region reg = None \<longleftrightarrow> r = last rs"
proof (induction rs arbitrary: p)
  case Nil
  then show ?case by simp
next
  case (Cons a rs)
  show ?case
  proof (cases rs)
    case Nil
    with Cons.prems show ?thesis by (auto split: option.splits)
  next
    case (Cons b rs')
    with Cons.prems Cons.IH show ?thesis
      by (auto split: option.splits)
  qed
qed

lemma chain_snoc:
  assumes "chain m p rs" and "rs \<noteq> []" and "distinct rs" and "q \<notin> set rs"
    and "m (last rs) = Some l" and "next_region n = None"
  shows "chain (m(q \<mapsto> n, last rs \<mapsto> l\<lparr>next_region := Some q\<rparr>)) p (rs @ [q])"
  using assms
proof (induction rs arbitrary: p)
  case Nil
  then show ?case by simp
next
  case (Cons a rs)
  show ?case
  proof (cases rs)
    case Nil
    with Cons.prems show ?thesis by (auto split: option.splits)
  next
    case (Cons b rs')
    with Cons.prems Cons.IH show ?thesis
      by (auto split: option.splits)
  qed
qed

lemma region_alloc_None_same: "region_alloc s r sz al = Inr (None, s') \<Longrightarrow> s' = s"
  by (auto simp add: region_alloc_def Let_def split: if_splits option.splits)

lemma fit_loop_chain:
  "chain (regions s) p rs \<Longrightarrow> fit_loop s p sz al = Some (fit_list s rs sz al)"
proof (induction rs arbitrary: p)
  case Nil
  then show ?case by (subst fit_loop.simps) simp
next
  case (Cons r rs)
  from Cons.prems obtain reg where p: "p = Some r" and reg: "regions s r = Some reg"
    and rest: "chain (regions s) (next_region reg) rs"
    by (auto split: option.splits)
  show ?case
  proof (cases "region_alloc s r sz al")
    case (Inl e)
    then show ?thesis by (subst fit_loop.simps) (simp add: p)
  next
    case (Inr res)
    obtain ptr s' where res: "res = (ptr, s')" by (cases res)
    show ?thesis
    proof (cases ptr)
      case None
      with Inr res have "s' = s" by (auto dest: region_alloc_None_same)
      with None Inr res reg Cons.IH [OF rest] show ?thesis
        by (subst fit_loop.simps) (simp add: p)
    next
      case (Some a)
      with Inr res show ?thesis by (subst fit_loop.simps) (simp add: p)
    qed
  qed
qed

lemma page_ok_ge: "page_ok ps \<Longrightarrow> 64 \<le> unat ps"
  by (simp add: page_ok_def word_le_nat_alt)

lemma page_ok_dvd:
  assumes "page_ok ps"
  shows "16 dvd unat ps"
proof -
  from assms have "is_power_of_two ps" and ge: "64 \<le> unat ps"
    by (simp_all add: page_ok_def word_le_nat_alt)
  then obtain k where k: "k < 64" "ps = 2 ^ k" by (blast dest: is_power_of_twoD)
  then have u: "unat ps = 2 ^ k" by (simp add: unat_2p)
  have "4 \<le> k"
  proof (rule ccontr)
    assume "\<not> 4 \<le> k"
    then have "k \<le> 3" by simp
    then have "(2::nat) ^ k \<le> 2 ^ 3" by (intro power_increasing) simp_all
    with ge u show False by simp
  qed
  then have "(2::nat) ^ 4 dvd 2 ^ k" by (rule le_imp_power_dvd)
  then show ?thesis by (simp add: u)
qed

lemma page_aligned_16:
  assumes "page_ok ps" and "unat p mod unat ps = 0"
  shows "unat p mod 16 = 0"
  using page_ok_dvd [OF assms(1)] assms(2) by (meson dvd_trans mod_eq_0_iff_dvd)

lemma page_multiple_ge:
  assumes "page_ok ps" and "m \<noteq> 0" and "unat m mod unat ps = 0"
  shows "unat ps \<le> unat m"
proof -
  have "0 < unat m" using assms(2) by (simp add: unat_gt_0)
  with assms(3) show ?thesis by (meson dvd_imp_le mod_eq_0_iff_dvd)
qed

lemma align_to_page_mod: "page_ok ps \<Longrightarrow> unat (align_to_page ps n) mod unat ps = 0"
  by (simp add: align_to_page_def page_ok_def align_mod)

lemma mmap_SomeD:
  assumes "mmap ps bs answer len = Some p"
  shows "answer = Some p" "len \<noteq> 0" "p \<noteq> 0" "unat p mod unat ps = 0"
    "unat p + unat len \<le> 2 ^ 64" "list_all (separate (p, len)) bs"
  using assms by (auto simp add: mmap_def split: option.splits if_splits)

lemma unat_sub_const:
  assumes "unat c \<le> unat (m::size_t)"
  shows "unat (m - c) = unat m - unat c"
  using assms by (simp add: unat_sub word_le_nat_alt)

lemma unat_add_const:
  assumes "unat (p::size_t) + unat c < 2 ^ 64"
  shows "unat (p + c) = unat p + unat c"
  using assms unat_add_lem [of p c] by simp

lemma create_arena_inv:
  assumes "page_ok ps" and "create_arena ps answer cap = Inr s"
  shows "arena_inv s [first_region s]"
proof -
  define msz where "msz = align_to_page ps (cap + ARENA_HEADER_SIZE)"
  from assms(2) obtain a where mm: "mmap ps [] answer msz = Some a"
    and s: "s = \<lparr>mapped = [(a, msz)], arena = a, last_region = a + FIRST_OFFSET,
               new_region_capacity = cap,
               regions = [a + FIRST_OFFSET \<mapsto>
                 \<lparr>next_region = None, tail = 0,
                  capacity = msz - ARENA_HEADER_SIZE, data = (\<lambda>_. 0)\<rparr>]\<rparr>"
    by (auto simp add: create_arena_def alloc_mem_def Let_def msz_def split: option.splits)
  have ge: "unat ps \<le> unat msz"
    using assms(1) mmap_SomeD(2) [OF mm] align_to_page_mod [OF assms(1)]
    unfolding msz_def by (rule page_multiple_ge)
  then have ge64: "64 \<le> unat msz" using page_ok_ge [OF assms(1)] by simp
  have fits: "unat a + unat msz \<le> 2 ^ 64" by (rule mmap_SomeD(5) [OF mm])
  have cap: "unat (msz - ARENA_HEADER_SIZE) = unat msz - 40"
    using ge64 unat_sub_const [of ARENA_HEADER_SIZE msz]
    by (simp add: ARENA_HEADER_SIZE_def FIRST_OFFSET_def REGION_HEADER_SIZE_def)
  have first: "unat (a + FIRST_OFFSET) = unat a + 16"
    using fits ge64 unat_add_const [of a FIRST_OFFSET] by (simp add: FIRST_OFFSET_def)
  have undo: "msz - ARENA_HEADER_SIZE + ARENA_HEADER_SIZE = msz" by simp
  have "unat a mod 16 = 0" using assms(1) mmap_SomeD(4) [OF mm] by (rule page_aligned_16)
  then have al: "(unat a + 16) mod 16 = 0" by simp
  show ?thesis
    using cap first fits ge64 al
    by (simp add: arena_inv_def s first_region_def placed_def block_of_def undo
        REGION_HEADER_SIZE_def)
qed

lemma bump_le:
  assumes "\<not> c \<le> (st::size_t)" and "\<not> c - st < sz"
  shows "st + sz \<le> c" and "unat (st + sz) = unat st + unat sz"
proof -
  from assms(1) have le: "st \<le> c" by simp
  then have sub: "unat (c - st) = unat c - unat st" by (rule unat_sub)
  from assms(2) have "unat sz \<le> unat (c - st)" by (simp add: word_less_nat_alt)
  with sub le have le2: "unat st + unat sz \<le> unat c" by (simp add: word_le_nat_alt)
  have "unat c < 2 ^ 64" using unsigned_less [of c] by simp
  with le2 have "unat st + unat sz < 2 ^ 64" by simp
  then show eq: "unat (st + sz) = unat st + unat sz" by (rule unat_add_const)
  from le2 show "st + sz \<le> c" by (simp add: word_le_nat_alt eq)
qed

lemma block_of_regions_cong:
  assumes "arena s' = arena s"
    and "map_option capacity (regions s' r) = map_option capacity (regions s r)"
  shows "block_of s' r = block_of s r"
  using assms by (auto simp add: block_of_def first_region_def split: option.splits)

lemma placed_cong:
  assumes "arena s' = arena s"
    and "map_option capacity (regions s' r) = map_option capacity (regions s r)"
    and "map_option tail (regions s' r) = map_option tail (regions s r)"
  shows "placed s' r = placed s r"
proof -
  have "block_of s' r = block_of s r" using assms(1,2) by (rule block_of_regions_cong)
  then show ?thesis using assms(2,3) by (auto simp add: placed_def split: option.splits)
qed

lemma inv_tail_update:
  assumes inv: "arena_inv s rs" and reg: "regions s r = Some reg" and t: "t \<le> capacity reg"
  shows "arena_inv (s\<lparr>regions := (regions s)(r \<mapsto> reg\<lparr>tail := t\<rparr>)\<rparr>) rs"
proof -
  let ?s = "s\<lparr>regions := (regions s)(r \<mapsto> reg\<lparr>tail := t\<rparr>)\<rparr>"
  have blk: "block_of ?s x = block_of s x" for x
    by (rule block_of_regions_cong) (simp_all add: reg)
  have pl: "placed ?s x" if "placed s x" for x
  proof (cases "x = r")
    case True
    with that reg t show ?thesis by (simp add: placed_def blk)
  next
    case False
    then have "placed ?s x = placed s x" by (intro placed_cong) simp_all
    with that show ?thesis by simp
  qed
  have r: "r \<in> dom (regions s)" using reg by auto
  have ch: "chain (regions ?s) (Some (first_region ?s)) rs"
    using inv reg by (simp add: arena_inv_def first_region_def chain_update_same_next)
  have "list_all (placed ?s) rs"
    using inv pl by (auto simp add: arena_inv_def list_all_iff)
  moreover have "mapped ?s = map (block_of ?s) (rev rs)"
    using inv by (simp add: arena_inv_def blk)
  moreover have "dom (regions ?s) = set rs"
    using inv r by (auto simp add: arena_inv_def)
  ultimately show ?thesis
    using inv ch by (simp add: arena_inv_def)
qed

lemma region_alloc_SomeD:
  assumes "region_alloc s r sz al = Inr (Some p, s')"
  obtains reg where "regions s r = Some reg"
    and "\<not> capacity reg \<le> align (tail reg) al"
    and "\<not> capacity reg - align (tail reg) al < sz"
    and "p = r + REGION_HEADER_SIZE + align (tail reg) al"
    and "s' = s\<lparr>regions := (regions s)(r \<mapsto> reg\<lparr>tail := align (tail reg) al + sz\<rparr>)\<rparr>"
    and "valid_request sz al"
  using assms
  by (auto simp add: region_alloc_def valid_request_def Let_def split: if_splits option.splits)

lemma region_alloc_inv:
  assumes "arena_inv s rs" and "region_alloc s r sz al = Inr (Some p, s')"
  shows "arena_inv s' rs"
proof -
  from assms(2) obtain reg where reg: "regions s r = Some reg"
    and c1: "\<not> capacity reg \<le> align (tail reg) al"
    and c2: "\<not> capacity reg - align (tail reg) al < sz"
    and s': "s' = s\<lparr>regions := (regions s)(r \<mapsto> reg\<lparr>tail := align (tail reg) al + sz\<rparr>)\<rparr>"
    by (rule region_alloc_SomeD)
  show ?thesis unfolding s'
    using assms(1) reg bump_le(1) [OF c1 c2] by (rule inv_tail_update)
qed

lemma inv_placed: "arena_inv s rs \<Longrightarrow> r \<in> set rs \<Longrightarrow> placed s r"
  by (simp add: arena_inv_def list_all_iff)

lemma inv_block_mapped: "arena_inv s rs \<Longrightarrow> r \<in> set rs \<Longrightarrow> block_of s r \<in> set (mapped s)"
  by (simp add: arena_inv_def)

lemma inv_first: "arena_inv s rs \<Longrightarrow> first_region s \<in> set rs"
  by (cases rs) (auto simp add: arena_inv_def)

lemma inv_last: "arena_inv s rs \<Longrightarrow> last_region s \<in> set rs"
  by (auto simp add: arena_inv_def dest: last_in_set)

lemma inv_fresh:
  assumes inv: "arena_inv s rs" and sep: "list_all (separate (q, msz)) (mapped s)"
    and nz: "msz \<noteq> 0"
  shows "q \<notin> set rs"
proof
  assume q: "q \<in> set rs"
  from inv_placed [OF inv q] obtain reg where reg: "regions s q = Some reg"
    and lo: "unat (fst (block_of s q)) \<le> unat q"
    and hi: "unat (fst (block_of s q)) + unat (snd (block_of s q))
              = unat q + unat REGION_HEADER_SIZE + unat (capacity reg)"
    by (auto simp add: placed_def split: option.splits)
  from sep inv_block_mapped [OF inv q] have "separate (q, msz) (block_of s q)"
    by (simp add: list_all_iff)
  moreover have "0 < unat msz" using nz by (simp add: unat_gt_0)
  moreover have "0 < unat REGION_HEADER_SIZE" by (simp add: REGION_HEADER_SIZE_def)
  ultimately show False using lo hi by (auto simp add: separate_def)
qed

lemma inv_grow:
  assumes inv: "arena_inv s rs" and page: "page_ok ps"
    and mm: "mmap ps (mapped s) answer msz = Some q"
    and mult: "unat msz mod unat ps = 0"
    and l: "regions s (last_region s) = Some l"
  shows "arena_inv (grown s q msz l) (rs @ [q])"
proof -
  let ?n = "\<lparr>next_region = None, tail = 0,
             capacity = msz - REGION_HEADER_SIZE, data = (\<lambda>_. 0)\<rparr>"
  let ?s = "grown s q msz l"
  have nz: "msz \<noteq> 0" and fits: "unat q + unat msz \<le> 2 ^ 64"
    and sep: "list_all (separate (q, msz)) (mapped s)"
    using mmap_SomeD [OF mm] by simp_all
  have fresh: "q \<notin> set rs" using inv sep nz by (rule inv_fresh)
  have q_first: "q \<noteq> first_region s" using fresh inv_first [OF inv] by auto
  have q_last: "q \<noteq> last_region s" using fresh inv_last [OF inv] by auto
  have ge: "64 \<le> unat msz"
    using page_multiple_ge [OF page nz mult] page_ok_ge [OF page] by simp
  have cap: "unat (msz - REGION_HEADER_SIZE) = unat msz - 24"
    using ge unat_sub_const [of REGION_HEADER_SIZE msz] by (simp add: REGION_HEADER_SIZE_def)
  have undo: "msz - REGION_HEADER_SIZE + REGION_HEADER_SIZE = msz" by simp
  have ar: "arena ?s = arena s" by (simp add: grown_def)
  have fr: "first_region ?s = first_region s" by (simp add: first_region_def ar)
  have reg_q: "regions ?s q = Some ?n" using q_last by (simp add: grown_def)
  have blk_q: "block_of ?s q = (q, msz)"
    using q_first by (simp add: block_of_def reg_q fr undo)
  have old: "block_of ?s x = block_of s x \<and> placed ?s x = placed s x" if "x \<in> set rs" for x
  proof -
    from that fresh have xq: "x \<noteq> q" by auto
    have c: "map_option capacity (regions ?s x) = map_option capacity (regions s x)"
      using xq l by (simp add: grown_def)
    have t: "map_option tail (regions ?s x) = map_option tail (regions s x)"
      using xq l by (simp add: grown_def)
    show ?thesis using block_of_regions_cong [OF ar c] placed_cong [OF ar c t] by simp
  qed
  have "unat q mod 16 = 0" using page mmap_SomeD(4) [OF mm] by (rule page_aligned_16)
  then have pl_q: "placed ?s q"
    using fits ge cap by (simp add: placed_def reg_q blk_q REGION_HEADER_SIZE_def)
  have ch0: "chain (regions s) (Some (first_region s)) rs" and ne: "rs \<noteq> []"
    and di: "distinct rs" and la: "last rs = last_region s"
    using inv by (simp_all add: arena_inv_def)
  have "chain ((regions s)(q \<mapsto> ?n, last rs \<mapsto> l\<lparr>next_region := Some q\<rparr>))
          (Some (first_region s)) (rs @ [q])"
    using ch0 ne di fresh l by (intro chain_snoc) (simp_all add: la)
  then have ch: "chain (regions ?s) (Some (first_region ?s)) (rs @ [q])"
    by (simp add: fr la) (simp add: grown_def)
  have dom: "dom (regions ?s) = set (rs @ [q])"
    using inv inv_last [OF inv] by (auto simp add: arena_inv_def grown_def)
  have pl: "list_all (placed ?s) (rs @ [q])"
    using inv old pl_q by (auto simp add: arena_inv_def list_all_iff)
  have "map (block_of ?s) (rev rs) = map (block_of s) (rev rs)"
    using old by (intro map_cong) simp_all
  then have mp: "mapped ?s = map (block_of ?s) (rev (rs @ [q]))"
    using inv by (simp add: blk_q arena_inv_def) (simp add: grown_def)
  have "pairwise_separate (mapped s)" using inv unfolding arena_inv_def by blast
  with sep have ps: "pairwise_separate (mapped ?s)" by (simp add: grown_def)
  have "last (rs @ [q]) = last_region ?s" by (simp add: grown_def)
  with ch dom pl mp ps di fresh show ?thesis
    by (simp add: arena_inv_def)
qed

lemma new_region_allocD:
  assumes inv: "arena_inv s rs"
    and res: "new_region_alloc ps answer s sz al = Inr (res, s')"
  obtains q l where
    "mmap ps (mapped s) answer
       (align_to_page ps (max sz (new_region_capacity s) + REGION_HEADER_SIZE)) = Some q"
    and "regions s (last_region s) = Some l"
    and "region_alloc
           (grown s q (align_to_page ps (max sz (new_region_capacity s) + REGION_HEADER_SIZE)) l)
           q sz al = Inr (res, s')"
proof -
  let ?msz = "align_to_page ps (max sz (new_region_capacity s) + REGION_HEADER_SIZE)"
  from res obtain q where mm: "mmap ps (mapped s) answer ?msz = Some q"
    by (auto simp add: new_region_alloc_def create_region_def alloc_mem_def Let_def
        split: option.splits sum.splits)
  have nz: "?msz \<noteq> 0" and sep: "list_all (separate (q, ?msz)) (mapped s)"
    using mmap_SomeD [OF mm] by simp_all
  have "q \<notin> set rs" using inv sep nz by (rule inv_fresh)
  then have q_last: "q \<noteq> last_region s" using inv_last [OF inv] by auto
  from inv_placed [OF inv inv_last [OF inv]] obtain l where l: "regions s (last_region s) = Some l"
    by (auto simp add: placed_def split: option.splits)
  have "region_alloc (grown s q ?msz l) q sz al = Inr (res, s')"
    using res mm l q_last
    by (simp add: new_region_alloc_def create_region_def alloc_mem_def Let_def grown_def)
  with mm l show ?thesis by (rule that)
qed

lemma new_region_alloc_inv:
  assumes inv: "arena_inv s rs" and page: "page_ok ps"
    and res: "new_region_alloc ps answer s sz al = Inr (res, s')"
  shows "\<exists>q. arena_inv s' (rs @ [q])"
proof -
  let ?msz = "align_to_page ps (max sz (new_region_capacity s) + REGION_HEADER_SIZE)"
  from inv res obtain q l where mm: "mmap ps (mapped s) answer ?msz = Some q"
    and l: "regions s (last_region s) = Some l"
    and ra: "region_alloc (grown s q ?msz l) q sz al = Inr (res, s')"
    by (rule new_region_allocD)
  have g: "arena_inv (grown s q ?msz l) (rs @ [q])"
    using inv page mm align_to_page_mod [OF page] l by (rule inv_grow)
  show ?thesis
  proof (cases res)
    case None
    with ra have "s' = grown s q ?msz l" by (auto dest: region_alloc_None_same)
    with g show ?thesis by blast
  next
    case (Some p)
    with ra g have "arena_inv s' (rs @ [q])" by (auto intro: region_alloc_inv)
    then show ?thesis by blast
  qed
qed

lemma arena_alloc_inv:
  assumes inv: "arena_inv s rs" and page: "page_ok ps"
    and res: "arena_alloc ps answer s sz al = Inr (res, s')"
  shows "\<exists>rs'. arena_inv s' (rs @ rs')"
proof (cases "region_alloc s (last_region s) sz al")
  case (Inl e)
  with res show ?thesis by (simp add: arena_alloc_def)
next
  case (Inr v)
  obtain p s1 where v: "v = (p, s1)" by (cases v)
  show ?thesis
  proof (cases p)
    case None
    with Inr v have "s1 = s" by (auto dest: region_alloc_None_same)
    with None Inr v res have "new_region_alloc ps answer s sz al = Inr (res, s')"
      by (simp add: arena_alloc_def)
    from new_region_alloc_inv [OF inv page this] show ?thesis by blast
  next
    case (Some a)
    with Inr v res have "s' = s1" by (simp add: arena_alloc_def)
    with Some Inr v have "region_alloc s (last_region s) sz al = Inr (Some a, s')" by simp
    from region_alloc_inv [OF inv this] have "arena_inv s' (rs @ [])" by simp
    then show ?thesis by blast
  qed
qed

lemma fit_list_Cons_cases:
  obtains (fail) e where "region_alloc s r sz al = Inl e"
      and "fit_list s (r # rs) sz al = Inl e"
  | (hit) p s1 where "region_alloc s r sz al = Inr (Some p, s1)"
      and "fit_list s (r # rs) sz al = Inr (Some p, s1)"
  | (miss) "region_alloc s r sz al = Inr (None, s)"
      and "fit_list s (r # rs) sz al = fit_list s rs sz al"
proof (cases "region_alloc s r sz al")
  case (Inl e)
  then show ?thesis by (intro fail [of e]) simp_all
next
  case (Inr v)
  obtain p s1 where v: "v = (p, s1)" by (cases v)
  show ?thesis
  proof (cases p)
    case None
    with Inr v have "s1 = s" by (auto dest: region_alloc_None_same)
    with None Inr v show ?thesis by (intro miss) simp_all
  next
    case (Some a)
    with Inr v show ?thesis by (intro hit [of a s1]) simp_all
  qed
qed

lemma fit_list_None: "fit_list s rs sz al = Inr (None, s') \<Longrightarrow> s' = s"
proof (induction rs)
  case Nil
  then show ?case by simp
next
  case (Cons r rs)
  show ?case
    by (cases rule: fit_list_Cons_cases [of s r sz al rs]) (use Cons in simp_all)
qed

lemma fit_list_Some:
  "fit_list s rs sz al = Inr (Some p, s') \<Longrightarrow>
   \<exists>r\<in>set rs. region_alloc s r sz al = Inr (Some p, s')"
proof (induction rs)
  case Nil
  then show ?case by simp
next
  case (Cons r rs)
  show ?case
    by (cases rule: fit_list_Cons_cases [of s r sz al rs]) (use Cons in auto)
qed

lemma arena_fit_chain:
  assumes "arena_inv s rs"
  shows "arena_fit ps answer s sz al =
     Some (case fit_list s rs sz al of
             Inl e \<Rightarrow> Inl e
           | Inr (Some result, s') \<Rightarrow> Inr (Some result, s')
           | Inr (None, s') \<Rightarrow> new_region_alloc ps answer s' sz al)"
proof -
  have "chain (regions s) (Some (first_region s)) rs"
    using assms by (simp add: arena_inv_def)
  then have "fit_loop s (Some (first_region s)) sz al = Some (fit_list s rs sz al)"
    by (rule fit_loop_chain)
  then show ?thesis
    by (simp add: arena_fit_def split: sum.splits option.splits prod.splits)
qed

lemma arena_fit_inv:
  assumes inv: "arena_inv s rs" and page: "page_ok ps"
    and res: "arena_fit ps answer s sz al = Some (Inr (res, s'))"
  shows "\<exists>rs'. arena_inv s' (rs @ rs')"
proof (cases "fit_list s rs sz al")
  case (Inl e)
  with res show ?thesis by (simp add: arena_fit_chain [OF inv])
next
  case (Inr v)
  obtain p s1 where v: "v = (p, s1)" by (cases v)
  show ?thesis
  proof (cases p)
    case None
    with Inr v have "s1 = s" by (auto dest: fit_list_None)
    with None Inr v res have "new_region_alloc ps answer s sz al = Inr (res, s')"
      by (simp add: arena_fit_chain [OF inv])
    from new_region_alloc_inv [OF inv page this] show ?thesis by blast
  next
    case (Some a)
    with Inr v res have s': "s' = s1" by (simp add: arena_fit_chain [OF inv])
    from Some Inr v have "fit_list s rs sz al = Inr (Some a, s')" by (simp add: s')
    from fit_list_Some [OF this] obtain r where "region_alloc s r sz al = Inr (Some a, s')"
      by blast
    from region_alloc_inv [OF inv this] have "arena_inv s' (rs @ [])" by simp
    then show ?thesis by blast
  qed
qed

lemma set_region_capacity_inv:
  assumes "arena_inv s rs"
  shows "arena_inv (set_region_capacity s c) rs"
proof -
  let ?s = "set_region_capacity s c"
  have blk: "block_of ?s = block_of s"
    by (rule ext, rule block_of_regions_cong) (simp_all add: set_region_capacity_def)
  have pl: "placed ?s = placed s"
    by (rule ext, rule placed_cong) (simp_all add: set_region_capacity_def)
  have fr: "first_region ?s = first_region s"
    by (simp add: first_region_def set_region_capacity_def)
  have same: "regions ?s = regions s" "mapped ?s = mapped s" "last_region ?s = last_region s"
    by (simp_all add: set_region_capacity_def)
  have "arena_inv ?s rs = arena_inv s rs"
    unfolding arena_inv_def by (simp only: blk pl fr same)
  with assms show ?thesis by simp
qed

lemma do_call_inv:
  assumes inv: "arena_inv s rs" and page: "page_ok ps"
    and res: "do_call ps answer s c = Some (Inr (bs, s'))"
  shows "\<exists>rs'. arena_inv s' (rs @ rs')"
proof (cases c)
  case (Alloc sz al)
  with res obtain p where "arena_alloc ps answer s sz al = Inr (p, s')"
    by (auto split: sum.splits option.splits prod.splits)
  with inv page show ?thesis by (rule arena_alloc_inv)
next
  case (Fit sz al)
  with res obtain p where "arena_fit ps answer s sz al = Some (Inr (p, s'))"
    by (auto split: sum.splits option.splits prod.splits)
  with inv page show ?thesis by (rule arena_fit_inv)
next
  case (Set_region_capacity cap)
  with res have "s' = set_region_capacity s cap" by simp
  with inv have "arena_inv s' (rs @ [])" by (simp add: set_region_capacity_inv)
  then show ?thesis by blast
qed

lemma run_inv:
  assumes "arena_inv s rs" and "page_ok ps"
    and "run ps s calls = Some (Inr (bs, s'))"
  shows "\<exists>rs'. arena_inv s' (rs @ rs')"
  using assms
proof (induction calls arbitrary: s rs bs)
  case Nil
  then have "arena_inv s' (rs @ [])" by simp
  then show ?case by blast
next
  case (Cons ac calls)
  obtain answer c where ac: "ac = (answer, c)" by (cases ac)
  from Cons.prems(3) obtain b1 s1 b2 where
    c1: "do_call ps answer s c = Some (Inr (b1, s1))"
    and c2: "run ps s1 calls = Some (Inr (b2, s'))"
    by (auto simp add: ac split: sum.splits option.splits prod.splits)
  from do_call_inv [OF Cons.prems(1,2) c1] obtain r1 where "arena_inv s1 (rs @ r1)" by blast
  from Cons.IH [OF this Cons.prems(2) c2] obtain r2 where "arena_inv s' ((rs @ r1) @ r2)"
    by blast
  then have "arena_inv s' (rs @ (r1 @ r2))" by simp
  then show ?case by blast
qed

lemma reachable_inv:
  assumes "page_ok ps" and "create_arena ps answer cap = Inr s0"
    and "run ps s0 calls = Some (Inr (bs, s))"
  shows "\<exists>rs. arena_inv s rs"
proof -
  have "arena_inv s0 [first_region s0]" using assms(1,2) by (rule create_arena_inv)
  from run_inv [OF this assms(1,3)] show ?thesis by blast
qed

section \<open>Arenas reached by a run of calls\<close>

lemma page_ok_4096: "page_ok 4096"
  by (simp add: page_ok_def is_power_of_two_def)

lemma example_alloc_fills:
  "arena_alloc 4096 None example_arena 4051 1 = Inr (Some 0x10028, example_full)"
  by (simp add: eval_defs example_arena_def example_full_def)

lemma example_alloc_grows:
  "arena_alloc 4096 (Some 0x20000) example_full 4022 1 = Inr (Some 0x20018, example_chain)"
  by (simp add: eval_defs example_arena_def example_full_def example_chain_def fun_eq_iff)

lemma run_example:
  "run 4096 example_arena [(None, Alloc 4051 1), (Some 0x20000, Alloc 4022 1)]
     = Some (Inr ([(0x10028, 4051), (0x20018, 4022)], example_chain))"
  by (simp add: example_alloc_fills example_alloc_grows)

text \<open>
  A run on an arena that satisfies the invariant returns: the loop of \<open>_arena_fit\<close>
  ends, because the chain does.
\<close>

lemma do_call_returns:
  assumes "arena_inv s rs"
  shows "do_call ps answer s c \<noteq> None"
proof (cases c)
  case (Alloc sz al)
  then show ?thesis by (simp split: sum.splits option.splits prod.splits)
next
  case (Fit sz al)
  then show ?thesis
    by (simp add: arena_fit_chain [OF assms] split: sum.splits option.splits prod.splits)
next
  case (Set_region_capacity cap)
  then show ?thesis by simp
qed

lemma run_returns:
  assumes "arena_inv s rs" and "page_ok ps"
  shows "run ps s calls \<noteq> None"
  using assms
proof (induction calls arbitrary: s rs)
  case Nil
  then show ?case by simp
next
  case (Cons ac calls)
  obtain answer c where ac: "ac = (answer, c)" by (cases ac)
  from do_call_returns [OF Cons.prems(1), of ps answer c]
  obtain v where v: "do_call ps answer s c = Some v" by auto
  show ?case
  proof (cases v)
    case (Inl e)
    with v show ?thesis by (simp add: ac)
  next
    case (Inr w)
    obtain bs s1 where w: "w = (bs, s1)" by (cases w)
    from do_call_inv [OF Cons.prems(1,2)] v Inr w obtain r1 where "arena_inv s1 (rs @ r1)"
      by blast
    from Cons.IH [OF this Cons.prems(2)] obtain u where "run ps s1 calls = Some u" by auto
    with v Inr w show ?thesis by (cases u) (auto simp add: ac)
  qed
qed

lemma reachable_run_returns:
  assumes "page_ok ps" and "create_arena ps answer cap = Inr s0"
  shows "run ps s0 calls \<noteq> None"
proof -
  have "arena_inv s0 [first_region s0]" using assms by (rule create_arena_inv)
  from this assms(1) show ?thesis by (rule run_returns)
qed

text \<open>
  C3. In every arena built by \<open>create_arena\<close> and any run of \<open>_arena_alloc\<close>,
  \<open>_arena_fit\<close> and \<open>set_region_capacity\<close> calls, every region has
  \<open>tail \<le> capacity\<close>.
\<close>

theorem tail_le_capacity:
  assumes "page_ok ps" and "create_arena ps answer cap = Inr s0"
    and "run ps s0 calls = Some (Inr (bs, s))"
    and "regions s r = Some reg"
  shows "tail reg \<le> capacity reg"
proof -
  from reachable_inv [OF assms(1,2,3)] obtain rs where inv: "arena_inv s rs" by blast
  then have "dom (regions s) = set rs" by (simp add: arena_inv_def)
  with assms(4) have "r \<in> set rs" by auto
  from inv_placed [OF inv this] assms(4) show ?thesis by (simp add: placed_def)
qed

theorem tail_le_capacity_witness:
  "page_ok 4096 \<and> create_arena 4096 (Some 0x10000) 64 = Inr example_arena
   \<and> run 4096 example_arena [(None, Alloc 4051 1), (Some 0x20000, Alloc 4022 1)]
       = Some (Inr ([(0x10028, 4051), (0x20018, 4022)], example_chain))
   \<and> regions example_chain 0x20000
       = Some \<lparr>next_region = None, tail = 4022, capacity = 4072, data = (\<lambda>_. 0)\<rparr>
   \<and> tail \<lparr>next_region = None, tail = 4022, capacity = 4072, data = (\<lambda>_. 0)\<rparr>
       \<le> capacity \<lparr>next_region = None, tail = 4022, capacity = 4072, data = (\<lambda>_. 0)\<rparr>"
proof -
  have h: "regions example_chain 0x20000
       = Some \<lparr>next_region = None, tail = 4022, capacity = 4072, data = (\<lambda>_. 0)\<rparr>"
    by (simp add: example_chain_def)
  from tail_le_capacity [OF page_ok_4096 create_example_arena run_example h]
  show ?thesis
    using page_ok_4096 create_example_arena run_example h by (intro conjI)
qed

text \<open>
  C7. In every such arena the regions reached from the embedded first region along the
  \<open>next\<close> links form a finite list without repetition that ends at \<open>nullptr\<close>;
  \<open>last\<close> is the final element of that list, and it is the one region whose
  \<open>next\<close> is \<open>nullptr\<close>.
\<close>

theorem chain_acyclic_last:
  assumes "page_ok ps" and "create_arena ps answer cap = Inr s0"
    and "run ps s0 calls = Some (Inr (bs, s))"
  shows "\<exists>rs. chain (regions s) (Some (first_region s)) rs \<and> distinct rs \<and> rs \<noteq> []
           \<and> last rs = last_region s
           \<and> (\<forall>r reg. regions s r = Some reg \<longrightarrow>
                 (next_region reg = None \<longleftrightarrow> r = last_region s))"
proof -
  from reachable_inv [OF assms] obtain rs where inv: "arena_inv s rs" by blast
  then have ch: "chain (regions s) (Some (first_region s)) rs" and di: "distinct rs"
    and ne: "rs \<noteq> []" and la: "last rs = last_region s" and dom: "dom (regions s) = set rs"
    by (simp_all add: arena_inv_def)
  have "next_region reg = None \<longleftrightarrow> r = last_region s" if "regions s r = Some reg" for r reg
  proof -
    from that dom have "r \<in> set rs" by auto
    from chain_next_none_iff [OF ch di this that] la show ?thesis by simp
  qed
  with ch di ne la show ?thesis by blast
qed

theorem chain_acyclic_last_witness:
  "page_ok 4096 \<and> create_arena 4096 (Some 0x10000) 64 = Inr example_arena
   \<and> run 4096 example_arena [(None, Alloc 4051 1), (Some 0x20000, Alloc 4022 1)]
       = Some (Inr ([(0x10028, 4051), (0x20018, 4022)], example_chain))
   \<and> (\<exists>rs. chain (regions example_chain) (Some (first_region example_chain)) rs
         \<and> distinct rs \<and> rs \<noteq> [] \<and> last rs = last_region example_chain
         \<and> (\<forall>r reg. regions example_chain r = Some reg \<longrightarrow>
               (next_region reg = None \<longleftrightarrow> r = last_region example_chain)))"
  using page_ok_4096 create_example_arena run_example
    chain_acyclic_last [OF page_ok_4096 create_example_arena run_example]
  by (intro conjI)

section \<open>Creating an arena\<close>

lemma create_arenaD:
  assumes "create_arena ps answer cap = Inr s"
  obtains a where
    "mmap ps [] answer (align_to_page ps (cap + ARENA_HEADER_SIZE)) = Some a"
    and "s = \<lparr>mapped = [(a, align_to_page ps (cap + ARENA_HEADER_SIZE))], arena = a,
               last_region = a + FIRST_OFFSET, new_region_capacity = cap,
               regions = [a + FIRST_OFFSET \<mapsto>
                 \<lparr>next_region = None, tail = 0,
                  capacity = align_to_page ps (cap + ARENA_HEADER_SIZE) - ARENA_HEADER_SIZE,
                  data = (\<lambda>_. 0)\<rparr>]\<rparr>"
  using assms
  by (auto simp add: create_arena_def alloc_mem_def Let_def split: option.splits)

text \<open>
  C6, as the claim states it, fails where \<open>capacity + ARENA_HEADER_SIZE\<close> wraps
  around in \<open>size_t\<close>: \<open>create_arena(SIZE_MAX)\<close> maps one page and the first
  region has 4056 bytes, fewer than requested.
\<close>

theorem create_arena_wraps:
  "create_arena 4096 (Some 0x10000) 0xFFFFFFFFFFFFFFFF = Inr example_wrapped
   \<and> regions example_wrapped (first_region example_wrapped)
       = Some \<lparr>next_region = None, tail = 0, capacity = 4056, data = (\<lambda>_. 0)\<rparr>
   \<and> \<not> (0xFFFFFFFFFFFFFFFF :: size_t) \<le> 4056"
  by (simp add: eval_defs example_wrapped_def example_arena_def fun_eq_iff)

text \<open>
  C6, amended. For every requested capacity such that \<open>capacity + ARENA_HEADER_SIZE\<close>
  does not wrap around, an arena that \<open>create_arena\<close> returns has a first region of
  at least the requested capacity; that capacity plus the header size is a multiple of
  the page size; it is the size of the one block obtained from the operating system,
  which is at least one page; and when the request and the header fit in one page the
  capacity is the page size minus the header size.
\<close>

theorem create_arena_capacity:
  assumes page: "page_ok ps"
    and nowrap: "unat cap + unat ARENA_HEADER_SIZE < 2 ^ 64"
    and cr: "create_arena ps answer cap = Inr s"
  shows "\<exists>reg. regions s (first_region s) = Some reg
           \<and> cap \<le> capacity reg
           \<and> (unat (capacity reg) + unat ARENA_HEADER_SIZE) mod unat ps = 0
           \<and> mapped s = [(arena s, capacity reg + ARENA_HEADER_SIZE)]
           \<and> unat (capacity reg + ARENA_HEADER_SIZE) = unat (capacity reg) + unat ARENA_HEADER_SIZE
           \<and> unat ps \<le> unat (capacity reg + ARENA_HEADER_SIZE)
           \<and> (unat cap + unat ARENA_HEADER_SIZE \<le> unat ps \<longrightarrow>
                 unat (capacity reg) = unat ps - unat ARENA_HEADER_SIZE)"
proof -
  define msz where "msz = align_to_page ps (cap + ARENA_HEADER_SIZE)"
  from cr obtain a where mm: "mmap ps [] answer msz = Some a"
    and s: "s = \<lparr>mapped = [(a, msz)], arena = a,
               last_region = a + FIRST_OFFSET, new_region_capacity = cap,
               regions = [a + FIRST_OFFSET \<mapsto>
                 \<lparr>next_region = None, tail = 0,
                  capacity = msz - ARENA_HEADER_SIZE, data = (\<lambda>_. 0)\<rparr>]\<rparr>"
    unfolding msz_def by (rule create_arenaD)
  have pw: "is_power_of_two ps" using page by (simp add: page_ok_def)
  have hdr: "unat ARENA_HEADER_SIZE = 40"
    by (simp add: ARENA_HEADER_SIZE_def FIRST_OFFSET_def REGION_HEADER_SIZE_def)
  have nz: "msz \<noteq> 0" by (rule mmap_SomeD(2) [OF mm])
  have sum: "unat (cap + ARENA_HEADER_SIZE) = unat cap + 40"
    using nowrap unat_add_const [of cap ARENA_HEADER_SIZE] by (simp add: hdr)
  have ru: "unat msz = round_up (unat cap + 40) (unat ps)"
    using align_nonzero_round_up [OF pw, of "cap + ARENA_HEADER_SIZE"] nz
    by (simp add: msz_def align_to_page_def sum)
  have pos: "0 < unat ps" using page_ok_ge [OF page] by simp
  have ge: "unat cap + 40 \<le> unat msz" unfolding ru using pos by (rule round_up_ge)
  have md: "unat msz mod unat ps = 0" unfolding ru by (rule round_up_mod)
  have gp: "unat ps \<le> unat msz" using page nz md by (rule page_multiple_ge)
  have c: "unat (msz - ARENA_HEADER_SIZE) = unat msz - 40"
    using ge unat_sub_const [of ARENA_HEADER_SIZE msz] by (simp add: hdr)
  have undo: "msz - ARENA_HEADER_SIZE + ARENA_HEADER_SIZE = msz" by simp
  have le: "cap \<le> msz - ARENA_HEADER_SIZE"
    using ge by (simp add: word_le_nat_alt c)
  have one: "unat (msz - ARENA_HEADER_SIZE) = unat ps - 40" if "unat cap + 40 \<le> unat ps"
  proof -
    have "round_up (unat cap + 40) (unat ps) = unat ps"
      using that by (intro round_up_one_unit) simp_all
    then show ?thesis by (simp add: c ru)
  qed
  show ?thesis
    using le md gp ge one
    by (simp add: s first_region_def undo c hdr)
qed

theorem create_arena_capacity_witness:
  "page_ok 4096 \<and> unat (64 :: size_t) + unat ARENA_HEADER_SIZE < 2 ^ 64
   \<and> create_arena 4096 (Some 0x10000) 64 = Inr example_arena
   \<and> unat (64 :: size_t) + unat ARENA_HEADER_SIZE \<le> unat (4096 :: size_t)
   \<and> (\<exists>reg. regions example_arena (first_region example_arena) = Some reg
         \<and> 64 \<le> capacity reg
         \<and> (unat (capacity reg) + unat ARENA_HEADER_SIZE) mod unat (4096 :: size_t) = 0
         \<and> mapped example_arena = [(arena example_arena, capacity reg + ARENA_HEADER_SIZE)]
         \<and> unat (capacity reg + ARENA_HEADER_SIZE) = unat (capacity reg) + unat ARENA_HEADER_SIZE
         \<and> unat (4096 :: size_t) \<le> unat (capacity reg + ARENA_HEADER_SIZE)
         \<and> (unat (64 :: size_t) + unat ARENA_HEADER_SIZE \<le> unat (4096 :: size_t) \<longrightarrow>
               unat (capacity reg) = unat (4096 :: size_t) - unat ARENA_HEADER_SIZE))"
proof -
  have h: "unat (64 :: size_t) + unat ARENA_HEADER_SIZE < 2 ^ 64"
    by (simp add: ARENA_HEADER_SIZE_def FIRST_OFFSET_def REGION_HEADER_SIZE_def)
  have one: "unat (64 :: size_t) + unat ARENA_HEADER_SIZE \<le> unat (4096 :: size_t)"
    by (simp add: ARENA_HEADER_SIZE_def FIRST_OFFSET_def REGION_HEADER_SIZE_def)
  from create_arena_capacity [OF page_ok_4096 h create_example_arena]
  show ?thesis
    using page_ok_4096 h create_example_arena one by (intro conjI)
qed

section \<open>Growing the arena\<close>

lemma region_alloc_valid_cases:
  assumes "valid_request sz al" and "regions s r = Some reg"
  obtains (no_space) "region_alloc s r sz al = Inr (None, s)"
  | (bumped) p s' where "region_alloc s r sz al = Inr (Some p, s')"
proof -
  let ?st = "align (tail reg) al"
  show ?thesis
  proof (cases "capacity reg \<le> ?st \<or> capacity reg - ?st < sz")
    case True
    then have "region_alloc s r sz al = Inr (None, s)"
      by (auto simp add: region_alloc_valid [OF assms] Let_def)
    then show ?thesis by (rule no_space)
  next
    case False
    then have "region_alloc s r sz al =
        Inr (Some (r + REGION_HEADER_SIZE + ?st),
             s\<lparr>regions := (regions s)(r \<mapsto> reg\<lparr>tail := ?st + sz\<rparr>)\<rparr>)"
      by (auto simp add: region_alloc_valid [OF assms] Let_def)
    then show ?thesis by (rule bumped)
  qed
qed

lemma new_region_alloc_eq:
  assumes inv: "arena_inv s rs" and l: "regions s (last_region s) = Some l"
  shows "new_region_alloc ps answer s sz al =
     (case mmap ps (mapped s) answer
             (align_to_page ps (max sz (new_region_capacity s) + REGION_HEADER_SIZE)) of
        None \<Rightarrow> Inl Exit
      | Some q \<Rightarrow>
          region_alloc
            (grown s q (align_to_page ps (max sz (new_region_capacity s) + REGION_HEADER_SIZE)) l)
            q sz al)"
proof -
  let ?msz = "align_to_page ps (max sz (new_region_capacity s) + REGION_HEADER_SIZE)"
  show ?thesis
  proof (cases "mmap ps (mapped s) answer ?msz")
    case None
    then show ?thesis
      by (simp add: new_region_alloc_def create_region_def alloc_mem_def Let_def)
  next
    case (Some q)
    have "q \<notin> set rs" using inv mmap_SomeD(6) [OF Some] mmap_SomeD(2) [OF Some] by (rule inv_fresh)
    then have "q \<noteq> last_region s" using inv_last [OF inv] by auto
    with Some l show ?thesis
      by (simp add: new_region_alloc_def create_region_def alloc_mem_def Let_def grown_def)
  qed
qed

lemma grown_alloc:
  assumes req: "valid_request sz al" and ql: "q \<noteq> last_region s"
    and fits: "sz \<le> msz - REGION_HEADER_SIZE"
  shows "region_alloc (grown s q msz l) q sz al =
     Inr (Some (q + REGION_HEADER_SIZE),
          (grown s q msz l)\<lparr>regions := (regions (grown s q msz l))(q \<mapsto>
             \<lparr>next_region = None, tail = sz,
              capacity = msz - REGION_HEADER_SIZE, data = (\<lambda>_. 0)\<rparr>)\<rparr>)"
proof -
  have pw: "is_power_of_two al" and pos: "0 < sz" using req by (simp_all add: valid_request_def)
  have reg: "regions (grown s q msz l) q
      = Some \<lparr>next_region = None, tail = 0,
              capacity = msz - REGION_HEADER_SIZE, data = (\<lambda>_. 0)\<rparr>"
    using ql by (simp add: grown_def)
  have c1: "\<not> msz - REGION_HEADER_SIZE \<le> 0" using pos fits by auto
  have c2: "\<not> msz - REGION_HEADER_SIZE < sz" using fits by simp
  show ?thesis
    unfolding region_alloc_valid [OF req reg]
    using c1 c2 by (simp add: Let_def align_zero [OF pw])
qed

lemma page_rounded_capacity:
  assumes page: "page_ok ps" and nowrap: "unat c + unat REGION_HEADER_SIZE < 2 ^ 64"
    and nz: "align_to_page ps (c + REGION_HEADER_SIZE) \<noteq> 0"
  shows "c \<le> align_to_page ps (c + REGION_HEADER_SIZE) - REGION_HEADER_SIZE"
    and "(unat (align_to_page ps (c + REGION_HEADER_SIZE) - REGION_HEADER_SIZE)
          + unat REGION_HEADER_SIZE) mod unat ps = 0"
proof -
  let ?msz = "align_to_page ps (c + REGION_HEADER_SIZE)"
  have pw: "is_power_of_two ps" using page by (simp add: page_ok_def)
  have hdr: "unat REGION_HEADER_SIZE = 24" by (simp add: REGION_HEADER_SIZE_def)
  have sum: "unat (c + REGION_HEADER_SIZE) = unat c + 24"
    using nowrap unat_add_const [of c REGION_HEADER_SIZE] by (simp add: hdr)
  have ru: "unat ?msz = round_up (unat c + 24) (unat ps)"
    using align_nonzero_round_up [OF pw, of "c + REGION_HEADER_SIZE"] nz
    by (simp add: align_to_page_def sum)
  have pos: "0 < unat ps" using page_ok_ge [OF page] by simp
  have ge: "unat c + 24 \<le> unat ?msz" unfolding ru using pos by (rule round_up_ge)
  have md: "unat ?msz mod unat ps = 0" unfolding ru by (rule round_up_mod)
  have cap: "unat (?msz - REGION_HEADER_SIZE) = unat ?msz - 24"
    using ge unat_sub_const [of REGION_HEADER_SIZE ?msz] by (simp add: hdr)
  show "c \<le> ?msz - REGION_HEADER_SIZE" using ge by (simp add: word_le_nat_alt cap)
  show "(unat (?msz - REGION_HEADER_SIZE) + unat REGION_HEADER_SIZE) mod unat ps = 0"
    using ge md by (simp add: cap hdr)
qed

lemma new_region_alloc_grows:
  assumes inv: "arena_inv s rs" and page: "page_ok ps" and req: "valid_request sz al"
    and nowrap: "unat (max sz (new_region_capacity s)) + unat REGION_HEADER_SIZE < 2 ^ 64"
    and mm: "mmap ps (mapped s) answer
               (align_to_page ps (max sz (new_region_capacity s) + REGION_HEADER_SIZE)) = Some q"
    and l: "regions s (last_region s) = Some l"
  obtains s' reg where
    "new_region_alloc ps answer s sz al = Inr (Some (q + REGION_HEADER_SIZE), s')"
    and "regions s q = None" and "regions s' q = Some reg" and "last_region s' = q"
    and "next_region reg = None" and "tail reg = sz"
    and "max sz (new_region_capacity s) \<le> capacity reg"
    and "(unat (capacity reg) + unat REGION_HEADER_SIZE) mod unat ps = 0"
    and "regions s' (last_region s) = Some (l\<lparr>next_region := Some q\<rparr>)"
    and "capacity reg = align_to_page ps (max sz (new_region_capacity s) + REGION_HEADER_SIZE)
           - REGION_HEADER_SIZE"
proof -
  let ?mx = "max sz (new_region_capacity s)"
  let ?msz = "align_to_page ps (?mx + REGION_HEADER_SIZE)"
  let ?g = "grown s q ?msz l"
  let ?reg = "\<lparr>next_region = None, tail = sz,
               capacity = ?msz - REGION_HEADER_SIZE, data = (\<lambda>_. 0)\<rparr>"
  let ?s' = "?g\<lparr>regions := (regions ?g)(q \<mapsto> ?reg)\<rparr>"
  have nz: "?msz \<noteq> 0" by (rule mmap_SomeD(2) [OF mm])
  have fresh: "q \<notin> set rs" using inv mmap_SomeD(6) [OF mm] nz by (rule inv_fresh)
  then have ql: "q \<noteq> last_region s" using inv_last [OF inv] by auto
  have "dom (regions s) = set rs" using inv by (simp add: arena_inv_def)
  with fresh have new: "regions s q = None" by auto
  have cap: "?mx \<le> ?msz - REGION_HEADER_SIZE"
    and md: "(unat (?msz - REGION_HEADER_SIZE) + unat REGION_HEADER_SIZE) mod unat ps = 0"
    using page_rounded_capacity [OF page nowrap nz] by simp_all
  have "sz \<le> ?mx" by simp
  from this cap have fits: "sz \<le> ?msz - REGION_HEADER_SIZE" by (rule order_trans)
  have "new_region_alloc ps answer s sz al = region_alloc ?g q sz al"
    by (simp add: new_region_alloc_eq [OF inv l] mm)
  also have "\<dots> = Inr (Some (q + REGION_HEADER_SIZE), ?s')"
    using req ql fits by (rule grown_alloc)
  finally have res: "new_region_alloc ps answer s sz al = Inr (Some (q + REGION_HEADER_SIZE), ?s')" .
  have r1: "regions ?s' q = Some ?reg" by simp
  have r2: "last_region ?s' = q" by (simp add: grown_def)
  have r3: "regions ?s' (last_region s) = Some (l\<lparr>next_region := Some q\<rparr>)"
    using ql by (simp add: grown_def)
  have r4: "next_region ?reg = None" "tail ?reg = sz" by simp_all
  have r5: "max sz (new_region_capacity s) \<le> capacity ?reg" using cap by simp
  have r6: "(unat (capacity ?reg) + unat REGION_HEADER_SIZE) mod unat ps = 0" using md by simp
  have r7: "capacity ?reg = ?msz - REGION_HEADER_SIZE" by simp
  show ?thesis
    using res new r1 r2 r4 r5 r6 r3 r7 by (rule that [of ?s' ?reg])
qed

lemma run_example_full:
  "run 4096 example_arena [(None, Alloc 4051 1)] = Some (Inr ([(0x10028, 4051)], example_full))"
  by (simp add: example_alloc_fills)

lemma region_alloc_frame:
  assumes "region_alloc s r sz al = Inr (res, s')"
  shows "last_region s' = last_region s" and "mapped s' = mapped s"
    and "arena s' = arena s" and "new_region_capacity s' = new_region_capacity s"
    and "map_option capacity (regions s' x) = map_option capacity (regions s x)"
    and "map_option next_region (regions s' x) = map_option next_region (regions s x)"
    and "map_option data (regions s' x) = map_option data (regions s x)"
    and "dom (regions s') = dom (regions s)"
  using assms
  by (auto simp add: region_alloc_def Let_def split: if_splits option.splits)

lemma new_region_alloc_capacity:
  assumes "new_region_alloc ps answer s sz al = Inr (res, s')"
  shows "\<exists>reg. regions s' (last_region s') = Some reg
     \<and> capacity reg
         = align_to_page ps (max sz (new_region_capacity s) + REGION_HEADER_SIZE)
           - REGION_HEADER_SIZE"
proof -
  let ?msz = "align_to_page ps (max sz (new_region_capacity s) + REGION_HEADER_SIZE)"
  let ?n = "\<lparr>next_region = None, tail = 0,
             capacity = ?msz - REGION_HEADER_SIZE, data = (\<lambda>_. 0)\<rparr>"
  from assms obtain q where mm: "mmap ps (mapped s) answer ?msz = Some q"
    by (auto simp add: new_region_alloc_def create_region_def alloc_mem_def Let_def
        split: option.splits sum.splits)
  define l where "l = (if q = last_region s then ?n else the (regions s (last_region s)))"
  define g where "g = s\<lparr>mapped := (q, ?msz) # mapped s,
       regions := (regions s)(q \<mapsto> ?n, last_region s \<mapsto> l\<lparr>next_region := Some q\<rparr>),
       last_region := q\<rparr>"
  have ra: "region_alloc g q sz al = Inr (res, s')"
    using assms mm
    by (auto simp add: new_region_alloc_def create_region_def alloc_mem_def Let_def g_def l_def
        split: option.splits)
  have "map_option capacity (regions g q) = Some (?msz - REGION_HEADER_SIZE)"
    by (simp add: g_def l_def)
  with region_alloc_frame(1) [OF ra] region_alloc_frame(5) [OF ra, of q]
  have "map_option capacity (regions s' (last_region s')) = Some (?msz - REGION_HEADER_SIZE)"
    by (simp add: g_def)
  then show ?thesis by auto
qed

text \<open>
  C4, as the claim states it, fails where \<open>max(size, new_region_capacity)\<close> plus the
  header size wraps around in \<open>size_t\<close>: on the arena of \<open>create_arena(64)\<close> the
  valid request \<open>_arena_alloc(SIZE_MAX - 15, 1)\<close> creates a region of 4072 bytes and
  returns \<open>nullptr\<close> to the caller.
\<close>

theorem arena_alloc_returns_null:
  "valid_request 0xFFFFFFFFFFFFFFF0 1
   \<and> create_arena 4096 (Some 0x10000) 64 = Inr example_arena
   \<and> arena_alloc 4096 (Some 0x20000) example_arena 0xFFFFFFFFFFFFFFF0 1
       = Inr (None, example_stranded)"
  by (simp add: eval_defs example_arena_def example_stranded_def fun_eq_iff)

text \<open>
  C4, amended. On every arena built by \<open>create_arena\<close> and a run of calls, for every
  valid request such that \<open>max(size, new_region_capacity)\<close> plus the region header size
  does not wrap around, \<open>_arena_alloc\<close> either returns a pointer or the process exits
  in \<open>alloc_mem\<close>. If the last region cannot satisfy the request, the process exits
  when \<open>mmap\<close> refuses, and otherwise a region that was not there before is linked
  after the old last region and becomes the last one; its capacity is at least
  \<open>max(size, new_region_capacity)\<close>, its capacity plus the region header size is a
  multiple of the page size, and the request is served from its start.
\<close>

theorem arena_alloc_never_fails:
  assumes page: "page_ok ps" and cr: "create_arena ps a0 cap0 = Inr s0"
    and run: "run ps s0 calls = Some (Inr (bs, s))"
    and req: "valid_request sz al"
    and nowrap: "unat (max sz (new_region_capacity s)) + unat REGION_HEADER_SIZE < 2 ^ 64"
  shows "(arena_alloc ps answer s sz al = Inl Exit
          \<or> (\<exists>p s'. arena_alloc ps answer s sz al = Inr (Some p, s')))
     \<and> (region_alloc s (last_region s) sz al = Inr (None, s) \<longrightarrow>
         (case mmap ps (mapped s) answer
                 (align_to_page ps (max sz (new_region_capacity s) + REGION_HEADER_SIZE)) of
            None \<Rightarrow> arena_alloc ps answer s sz al = Inl Exit
          | Some q \<Rightarrow>
              \<exists>s' reg l. arena_alloc ps answer s sz al = Inr (Some (q + REGION_HEADER_SIZE), s')
                \<and> regions s q = None \<and> regions s' q = Some reg \<and> last_region s' = q
                \<and> next_region reg = None \<and> tail reg = sz
                \<and> max sz (new_region_capacity s) \<le> capacity reg
                \<and> (unat (capacity reg) + unat REGION_HEADER_SIZE) mod unat ps = 0
                \<and> regions s (last_region s) = Some l
                \<and> regions s' (last_region s) = Some (l\<lparr>next_region := Some q\<rparr>)))"
proof -
  let ?msz = "align_to_page ps (max sz (new_region_capacity s) + REGION_HEADER_SIZE)"
  from reachable_inv [OF page cr run] obtain rs where inv: "arena_inv s rs" by blast
  from inv_placed [OF inv inv_last [OF inv]] obtain l where l: "regions s (last_region s) = Some l"
    by (auto simp add: placed_def split: option.splits)
  have grow: "case mmap ps (mapped s) answer ?msz of
            None \<Rightarrow> arena_alloc ps answer s sz al = Inl Exit
          | Some q \<Rightarrow>
              \<exists>s' reg l. arena_alloc ps answer s sz al = Inr (Some (q + REGION_HEADER_SIZE), s')
                \<and> regions s q = None \<and> regions s' q = Some reg \<and> last_region s' = q
                \<and> next_region reg = None \<and> tail reg = sz
                \<and> max sz (new_region_capacity s) \<le> capacity reg
                \<and> (unat (capacity reg) + unat REGION_HEADER_SIZE) mod unat ps = 0
                \<and> regions s (last_region s) = Some l
                \<and> regions s' (last_region s) = Some (l\<lparr>next_region := Some q\<rparr>)"
    if none: "region_alloc s (last_region s) sz al = Inr (None, s)"
  proof -
    have eq: "arena_alloc ps answer s sz al = new_region_alloc ps answer s sz al"
      by (simp add: arena_alloc_def none)
    show ?thesis
    proof (cases "mmap ps (mapped s) answer ?msz")
      case None
      then show ?thesis by (simp add: eq new_region_alloc_eq [OF inv l])
    next
      case (Some q)
      obtain s' reg where g:
        "new_region_alloc ps answer s sz al = Inr (Some (q + REGION_HEADER_SIZE), s')"
        "regions s q = None" "regions s' q = Some reg" "last_region s' = q"
        "next_region reg = None" "tail reg = sz"
        "max sz (new_region_capacity s) \<le> capacity reg"
        "(unat (capacity reg) + unat REGION_HEADER_SIZE) mod unat ps = 0"
        "regions s' (last_region s) = Some (l\<lparr>next_region := Some q\<rparr>)"
        by (rule new_region_alloc_grows [OF inv page req nowrap Some l])
      show ?thesis
        unfolding eq Some option.case
        by (intro exI [of _ s'] exI [of _ reg] exI [of _ l] conjI) (fact g l)+
    qed
  qed
  have "arena_alloc ps answer s sz al = Inl Exit
          \<or> (\<exists>p s'. arena_alloc ps answer s sz al = Inr (Some p, s'))"
    using req l
  proof (cases rule: region_alloc_valid_cases)
    case no_space
    from grow [OF no_space] show ?thesis
      by (cases "mmap ps (mapped s) answer ?msz") auto
  next
    case (bumped p s')
    then show ?thesis by (simp add: arena_alloc_def)
  qed
  with grow show ?thesis by blast
qed

theorem arena_alloc_never_fails_witness:
  "page_ok 4096 \<and> create_arena 4096 (Some 0x10000) 64 = Inr example_arena
   \<and> run 4096 example_arena [(None, Alloc 4051 1)]
       = Some (Inr ([(0x10028, 4051)], example_full))
   \<and> valid_request 4022 1
   \<and> unat (max 4022 (new_region_capacity example_full)) + unat REGION_HEADER_SIZE < 2 ^ 64
   \<and> region_alloc example_full (last_region example_full) 4022 1 = Inr (None, example_full)
   \<and> mmap 4096 (mapped example_full) (Some 0x20000)
        (align_to_page 4096 (max 4022 (new_region_capacity example_full) + REGION_HEADER_SIZE))
       = Some 0x20000
   \<and> (\<exists>s' reg l.
         arena_alloc 4096 (Some 0x20000) example_full 4022 1
           = Inr (Some (0x20000 + REGION_HEADER_SIZE), s')
         \<and> regions example_full 0x20000 = None \<and> regions s' 0x20000 = Some reg
         \<and> last_region s' = 0x20000 \<and> next_region reg = None \<and> tail reg = 4022
         \<and> max 4022 (new_region_capacity example_full) \<le> capacity reg
         \<and> (unat (capacity reg) + unat REGION_HEADER_SIZE) mod unat (4096 :: size_t) = 0
         \<and> regions example_full (last_region example_full) = Some l
         \<and> regions s' (last_region example_full) = Some (l\<lparr>next_region := Some 0x20000\<rparr>))"
proof -
  have req: "valid_request 4022 1"
    by (simp add: valid_request_def alignof_max_align_t_def is_power_of_two_def)
  have nowrap:
    "unat (max 4022 (new_region_capacity example_full)) + unat REGION_HEADER_SIZE < 2 ^ 64"
    by (simp add: example_full_def example_arena_def REGION_HEADER_SIZE_def)
  have none: "region_alloc example_full (last_region example_full) 4022 1
      = Inr (None, example_full)"
    by (simp add: eval_defs example_full_def example_arena_def)
  have mm: "mmap 4096 (mapped example_full) (Some 0x20000)
        (align_to_page 4096 (max 4022 (new_region_capacity example_full) + REGION_HEADER_SIZE))
       = Some 0x20000"
    by (simp add: eval_defs example_full_def example_arena_def)
  note T = arena_alloc_never_fails [OF page_ok_4096 create_example_arena run_example_full
      req nowrap, of "Some 0x20000"]
  from T have "region_alloc example_full (last_region example_full) 4022 1
      = Inr (None, example_full) \<longrightarrow>
      (case mmap 4096 (mapped example_full) (Some 0x20000)
        (align_to_page 4096 (max 4022 (new_region_capacity example_full) + REGION_HEADER_SIZE)) of
         None \<Rightarrow> arena_alloc 4096 (Some 0x20000) example_full 4022 1 = Inl Exit
       | Some q \<Rightarrow>
          \<exists>s' reg l.
            arena_alloc 4096 (Some 0x20000) example_full 4022 1
              = Inr (Some (q + REGION_HEADER_SIZE), s')
            \<and> regions example_full q = None \<and> regions s' q = Some reg
            \<and> last_region s' = q \<and> next_region reg = None \<and> tail reg = 4022
            \<and> max 4022 (new_region_capacity example_full) \<le> capacity reg
            \<and> (unat (capacity reg) + unat REGION_HEADER_SIZE) mod unat (4096 :: size_t) = 0
            \<and> regions example_full (last_region example_full) = Some l
            \<and> regions s' (last_region example_full) = Some (l\<lparr>next_region := Some q\<rparr>))"
    by (rule conjunct2)
  from this none have
    "case mmap 4096 (mapped example_full) (Some 0x20000)
        (align_to_page 4096 (max 4022 (new_region_capacity example_full) + REGION_HEADER_SIZE)) of
         None \<Rightarrow> arena_alloc 4096 (Some 0x20000) example_full 4022 1 = Inl Exit
       | Some q \<Rightarrow>
          \<exists>s' reg l.
            arena_alloc 4096 (Some 0x20000) example_full 4022 1
              = Inr (Some (q + REGION_HEADER_SIZE), s')
            \<and> regions example_full q = None \<and> regions s' q = Some reg
            \<and> last_region s' = q \<and> next_region reg = None \<and> tail reg = 4022
            \<and> max 4022 (new_region_capacity example_full) \<le> capacity reg
            \<and> (unat (capacity reg) + unat REGION_HEADER_SIZE) mod unat (4096 :: size_t) = 0
            \<and> regions example_full (last_region example_full) = Some l
            \<and> regions s' (last_region example_full) = Some (l\<lparr>next_region := Some q\<rparr>)"
    by (rule mp)
  then have "\<exists>s' reg l.
         arena_alloc 4096 (Some 0x20000) example_full 4022 1
           = Inr (Some (0x20000 + REGION_HEADER_SIZE), s')
         \<and> regions example_full 0x20000 = None \<and> regions s' 0x20000 = Some reg
         \<and> last_region s' = 0x20000 \<and> next_region reg = None \<and> tail reg = 4022
         \<and> max 4022 (new_region_capacity example_full) \<le> capacity reg
         \<and> (unat (capacity reg) + unat REGION_HEADER_SIZE) mod unat (4096 :: size_t) = 0
         \<and> regions example_full (last_region example_full) = Some l
         \<and> regions s' (last_region example_full) = Some (l\<lparr>next_region := Some 0x20000\<rparr>)"
    unfolding mm option.case .
  with page_ok_4096 create_example_arena run_example_full req nowrap none mm
  show ?thesis by (intro conjI)
qed

text \<open>
  C10. \<open>create_arena(capacity)\<close> stores the requested capacity, before any rounding,
  in \<open>new_region_capacity\<close>; a region that \<open>new_region_alloc\<close> then creates on the
  fresh arena has the capacity computed from \<open>max(size, capacity)\<close>.
\<close>

theorem create_arena_new_region_capacity:
  assumes "create_arena ps answer cap = Inr s"
    and "new_region_alloc ps answer' s sz al = Inr (res, s')"
  shows "new_region_capacity s = cap
     \<and> (\<exists>reg. regions s' (last_region s') = Some reg
           \<and> capacity reg
               = align_to_page ps (max sz cap + REGION_HEADER_SIZE) - REGION_HEADER_SIZE)"
proof -
  from assms(1) have "new_region_capacity s = cap"
    by (rule create_arenaD) simp
  with new_region_alloc_capacity [OF assms(2)] show ?thesis by simp
qed

theorem create_arena_new_region_capacity_witness:
  "create_arena 4096 (Some 0x10000) 64 = Inr example_arena
   \<and> new_region_alloc 4096 (Some 0x20000) example_arena 5000 1
       = Inr (Some 0x20018, example_second)
   \<and> new_region_capacity example_arena = 64
   \<and> (\<exists>reg. regions example_second (last_region example_second) = Some reg
         \<and> capacity reg
             = align_to_page 4096 (max 5000 64 + REGION_HEADER_SIZE) - REGION_HEADER_SIZE)"
proof -
  have h: "new_region_alloc 4096 (Some 0x20000) example_arena 5000 1
       = Inr (Some 0x20018, example_second)"
    by (simp add: eval_defs example_arena_def example_second_def fun_eq_iff)
  from create_arena_new_region_capacity [OF create_example_arena h]
  show ?thesis using create_example_arena h by (intro conjI) simp_all
qed

text \<open>
  C8. \<open>set_region_capacity\<close> changes the field \<open>new_region_capacity\<close> and nothing
  else: the region store (every region's \<open>next\<close>, \<open>tail\<close>, \<open>capacity\<close> and
  payload), \<open>last\<close>, the arena's address and the mapped blocks are the same. A region
  created after the call has the capacity computed from the new value.
\<close>

theorem set_region_capacity_frame:
  "mapped (set_region_capacity s cap) = mapped s
   \<and> arena (set_region_capacity s cap) = arena s
   \<and> last_region (set_region_capacity s cap) = last_region s
   \<and> regions (set_region_capacity s cap) = regions s
   \<and> new_region_capacity (set_region_capacity s cap) = cap
   \<and> (new_region_alloc ps answer (set_region_capacity s cap) sz al = Inr (res, s') \<longrightarrow>
        (\<exists>reg. regions s' (last_region s') = Some reg
           \<and> capacity reg
               = align_to_page ps (max sz cap + REGION_HEADER_SIZE) - REGION_HEADER_SIZE))"
proof -
  have "\<exists>reg. regions s' (last_region s') = Some reg
           \<and> capacity reg
               = align_to_page ps (max sz cap + REGION_HEADER_SIZE) - REGION_HEADER_SIZE"
    if "new_region_alloc ps answer (set_region_capacity s cap) sz al = Inr (res, s')"
    using new_region_alloc_capacity [OF that] by (simp add: set_region_capacity_def)
  then show ?thesis by (simp add: set_region_capacity_def)
qed

theorem set_region_capacity_frame_witness:
  "new_region_alloc 4096 (Some 0x20000) (set_region_capacity example_arena 8192) 100 1
       = Inr (Some 0x20018, example_resized)
   \<and> mapped (set_region_capacity example_arena 8192) = mapped example_arena
   \<and> arena (set_region_capacity example_arena 8192) = arena example_arena
   \<and> last_region (set_region_capacity example_arena 8192) = last_region example_arena
   \<and> regions (set_region_capacity example_arena 8192) = regions example_arena
   \<and> new_region_capacity (set_region_capacity example_arena 8192) = 8192
   \<and> (\<exists>reg. regions example_resized (last_region example_resized) = Some reg
         \<and> capacity reg
             = align_to_page 4096 (max 100 8192 + REGION_HEADER_SIZE) - REGION_HEADER_SIZE)"
proof -
  have h: "new_region_alloc 4096 (Some 0x20000) (set_region_capacity example_arena 8192) 100 1
       = Inr (Some 0x20018, example_resized)"
    by (simp add: eval_defs example_arena_def example_resized_def fun_eq_iff)
  from set_region_capacity_frame
    [of example_arena 8192 4096 "Some 0x20000" 100 1 "Some 0x20018" example_resized] h
  show ?thesis by (intro conjI) simp_all
qed

section \<open>First fit\<close>

lemma placed_region_ok:
  assumes "placed s r" and "regions s r = Some reg"
  shows "region_ok reg"
  using assms by (simp add: placed_def region_ok_def)

lemma region_alloc_room:
  assumes reg: "regions s r = Some reg" and ok: "region_ok reg"
    and req: "valid_request sz al"
  shows "region_alloc s r sz al =
     (if has_room reg sz al
      then Inr (Some (r + REGION_HEADER_SIZE + of_nat (round_up (unat (tail reg)) (unat al))),
                s\<lparr>regions := (regions s)(r \<mapsto>
                    reg\<lparr>tail := of_nat (round_up (unat (tail reg)) (unat al) + unat sz)\<rparr>)\<rparr>)
      else Inr (None, s))"
proof -
  have "0 < unat sz" using req by (simp add: valid_request_def word_less_nat_alt)
  then show ?thesis
    unfolding region_alloc_round_up [OF reg ok req] has_room_def Let_def
    by auto
qed

lemma fit_list_skip:
  assumes "\<forall>x\<in>set pre. region_alloc s x sz al = Inr (None, s)"
  shows "fit_list s (pre @ rs) sz al = fit_list s rs sz al"
  using assms by (induction pre) simp_all

text \<open>
  C5. On every arena built by \<open>create_arena\<close> and a run of calls, for every valid
  request, \<open>_arena_fit\<close> returns a pointer from the first region in chain order that
  has room for the request, whatever comes after it in the chain; only that region's
  \<open>tail\<close> changes, so that no region is created.
\<close>

theorem arena_fit_first_fit:
  assumes page: "page_ok ps" and cr: "create_arena ps a0 cap0 = Inr s0"
    and run: "run ps s0 calls = Some (Inr (bs, s))"
    and req: "valid_request sz al"
    and ch: "chain (regions s) (Some (first_region s)) (pre @ r # post)"
    and reg: "regions s r = Some reg"
    and room: "has_room reg sz al"
    and full: "\<forall>x\<in>set pre. \<forall>xr. regions s x = Some xr \<longrightarrow> \<not> has_room xr sz al"
  shows "arena_fit ps answer s sz al =
     Some (Inr (Some (r + REGION_HEADER_SIZE + of_nat (round_up (unat (tail reg)) (unat al))),
                s\<lparr>regions := (regions s)(r \<mapsto>
                    reg\<lparr>tail := of_nat (round_up (unat (tail reg)) (unat al) + unat sz)\<rparr>)\<rparr>))"
proof -
  from reachable_inv [OF page cr run] obtain rs where inv: "arena_inv s rs" by blast
  then have "chain (regions s) (Some (first_region s)) rs" by (simp add: arena_inv_def)
  with ch have rs: "rs = pre @ r # post" by (rule chain_unique [symmetric])
  have skip: "region_alloc s x sz al = Inr (None, s)" if x: "x \<in> set pre" for x
  proof -
    from x rs have xin: "x \<in> set rs" by simp
    from inv_placed [OF inv xin] obtain xr where xr: "regions s x = Some xr"
      by (auto simp add: placed_def split: option.splits)
    have "region_ok xr" using inv_placed [OF inv xin] xr by (rule placed_region_ok)
    with xr have "region_alloc s x sz al = (if has_room xr sz al then
        Inr (Some (x + REGION_HEADER_SIZE + of_nat (round_up (unat (tail xr)) (unat al))),
                s\<lparr>regions := (regions s)(x \<mapsto>
                    xr\<lparr>tail := of_nat (round_up (unat (tail xr)) (unat al) + unat sz)\<rparr>)\<rparr>)
        else Inr (None, s))"
      using req by (rule region_alloc_room)
    with full x xr show ?thesis by simp
  qed
  have rin: "r \<in> set rs" using rs by simp
  have "region_ok reg" using inv_placed [OF inv rin] reg by (rule placed_region_ok)
  with reg have hit: "region_alloc s r sz al =
      Inr (Some (r + REGION_HEADER_SIZE + of_nat (round_up (unat (tail reg)) (unat al))),
                s\<lparr>regions := (regions s)(r \<mapsto>
                    reg\<lparr>tail := of_nat (round_up (unat (tail reg)) (unat al) + unat sz)\<rparr>)\<rparr>)"
    using req room by (simp add: region_alloc_room)
  have "fit_list s rs sz al = fit_list s (r # post) sz al"
    unfolding rs using skip by (intro fit_list_skip) simp
  also have "\<dots> = Inr (Some (r + REGION_HEADER_SIZE + of_nat (round_up (unat (tail reg)) (unat al))),
                s\<lparr>regions := (regions s)(r \<mapsto>
                    reg\<lparr>tail := of_nat (round_up (unat (tail reg)) (unat al) + unat sz)\<rparr>)\<rparr>)"
    by (simp add: hit)
  finally show ?thesis by (simp add: arena_fit_chain [OF inv])
qed

theorem arena_fit_first_fit_witness:
  "page_ok 4096 \<and> create_arena 4096 (Some 0x10000) 64 = Inr example_arena
   \<and> run 4096 example_arena [(None, Alloc 4051 1), (Some 0x20000, Alloc 4022 1)]
       = Some (Inr ([(0x10028, 4051), (0x20018, 4022)], example_chain))
   \<and> valid_request 10 1
   \<and> chain (regions example_chain) (Some (first_region example_chain)) ([0x10010] @ 0x20000 # [])
   \<and> regions example_chain 0x20000
       = Some \<lparr>next_region = None, tail = 4022, capacity = 4072, data = (\<lambda>_. 0)\<rparr>
   \<and> has_room \<lparr>next_region = None, tail = 4022, capacity = 4072, data = (\<lambda>_. 0)\<rparr> 10 1
   \<and> \<not> has_room
         \<lparr>next_region = Some 0x20000, tail = 4051, capacity = 4056, data = (\<lambda>_. 0)\<rparr> 10 1
   \<and> arena_fit 4096 None example_chain 10 1 =
       Some (Inr (Some 0x20FCE,
         example_chain\<lparr>regions := (regions example_chain)(0x20000 \<mapsto>
           \<lparr>next_region = None, tail = 4032, capacity = 4072, data = (\<lambda>_. 0)\<rparr>)\<rparr>))"
proof -
  have req: "valid_request 10 1"
    by (simp add: valid_request_def alignof_max_align_t_def is_power_of_two_def)
  have ch: "chain (regions example_chain) (Some (first_region example_chain))
      ([0x10010] @ 0x20000 # [])"
    by (simp add: example_chain_def first_region_def FIRST_OFFSET_def)
  have reg: "regions example_chain 0x20000
       = Some \<lparr>next_region = None, tail = 4022, capacity = 4072, data = (\<lambda>_. 0)\<rparr>"
    by (simp add: example_chain_def)
  have room: "has_room \<lparr>next_region = None, tail = 4022, capacity = 4072, data = (\<lambda>_. 0)\<rparr> 10 1"
    by (simp add: has_room_def round_up_def)
  have noroom: "\<not> has_room
         \<lparr>next_region = Some 0x20000, tail = 4051, capacity = 4056, data = (\<lambda>_. 0)\<rparr> 10 1"
    by (simp add: has_room_def round_up_def)
  have full: "\<forall>x\<in>set [0x10010]. \<forall>xr. regions example_chain x = Some xr \<longrightarrow> \<not> has_room xr 10 1"
    using noroom by (simp add: example_chain_def)
  from arena_fit_first_fit [OF page_ok_4096 create_example_arena run_example req ch reg room full,
      of None]
  have "arena_fit 4096 None example_chain 10 1 =
       Some (Inr (Some 0x20FCE,
         example_chain\<lparr>regions := (regions example_chain)(0x20000 \<mapsto>
           \<lparr>next_region = None, tail = 4032, capacity = 4072, data = (\<lambda>_. 0)\<rparr>)\<rparr>))"
    by (simp add: round_up_def REGION_HEADER_SIZE_def)
  with page_ok_4096 create_example_arena run_example req ch reg room noroom
  show ?thesis by (intro conjI)
qed

section \<open>The blocks handed out\<close>

lemma do_call_cases:
  assumes inv: "arena_inv s rs" and page: "page_ok ps"
    and res: "do_call ps answer s c = Some (Inr (bs, s'))"
  obtains (config) cap where "c = Set_region_capacity cap" and "bs = []"
      and "s' = set_region_capacity s cap"
  | (hit) sz al r p where "c = Alloc sz al \<or> c = Fit sz al"
      and "region_alloc s r sz al = Inr (Some p, s')" and "bs = [(p, sz)]"
  | (grow) sz al q l ptr where "c = Alloc sz al \<or> c = Fit sz al"
      and "mmap ps (mapped s) answer
             (align_to_page ps (max sz (new_region_capacity s) + REGION_HEADER_SIZE)) = Some q"
      and "regions s (last_region s) = Some l"
      and "region_alloc
             (grown s q (align_to_page ps (max sz (new_region_capacity s) + REGION_HEADER_SIZE)) l)
             q sz al = Inr (ptr, s')"
      and "bs = (case ptr of None \<Rightarrow> [] | Some p \<Rightarrow> [(p, sz)])"
proof -
  have growth: thesis
    if c: "c = Alloc sz al \<or> c = Fit sz al"
      and nr: "new_region_alloc ps answer s sz al = Inr (ptr, s')"
      and bs: "bs = (case ptr of None \<Rightarrow> [] | Some p \<Rightarrow> [(p, sz)])"
    for sz al ptr
  proof -
    from inv nr obtain q l where
      "mmap ps (mapped s) answer
             (align_to_page ps (max sz (new_region_capacity s) + REGION_HEADER_SIZE)) = Some q"
      "regions s (last_region s) = Some l"
      "region_alloc
             (grown s q (align_to_page ps (max sz (new_region_capacity s) + REGION_HEADER_SIZE)) l)
             q sz al = Inr (ptr, s')"
      by (rule new_region_allocD)
    with c show ?thesis using bs by (rule grow)
  qed
  show ?thesis
  proof (cases c)
    case (Set_region_capacity cap)
    with res show ?thesis by (intro config [of cap]) simp_all
  next
    case (Alloc sz al)
    show ?thesis
    proof (cases "region_alloc s (last_region s) sz al")
      case (Inl e)
      with res Alloc show ?thesis by (simp add: arena_alloc_def)
    next
      case (Inr v)
      obtain ptr s1 where v: "v = (ptr, s1)" by (cases v)
      show ?thesis
      proof (cases ptr)
        case None
        with Inr v have s1: "s1 = s" by (auto dest: region_alloc_None_same)
        from res Alloc obtain ptr' where
          aa: "arena_alloc ps answer s sz al = Inr (ptr', s')"
          and bs: "bs = (case ptr' of None \<Rightarrow> [] | Some p \<Rightarrow> [(p, sz)])"
          by (auto split: sum.splits option.splits prod.splits)
        from aa None Inr v s1 have "new_region_alloc ps answer s sz al = Inr (ptr', s')"
          by (simp add: arena_alloc_def)
        with Alloc bs show ?thesis by (intro growth [of sz al ptr']) simp_all
      next
        case (Some p)
        with Inr v res Alloc have "s' = s1" "bs = [(p, sz)]"
          by (simp_all add: arena_alloc_def)
        with Some Inr v Alloc show ?thesis
          by (intro hit [of sz al "last_region s" p]) simp_all
      qed
    qed
  next
    case (Fit sz al)
    note fit = arena_fit_chain [OF inv, of ps answer sz al]
    show ?thesis
    proof (cases "fit_list s rs sz al")
      case (Inl e)
      with res Fit fit show ?thesis by simp
    next
      case (Inr v)
      obtain ptr s1 where v: "v = (ptr, s1)" by (cases v)
      show ?thesis
      proof (cases ptr)
        case None
        with Inr v have s1: "s1 = s" by (auto dest: fit_list_None)
        from res Fit obtain ptr' where
          aa: "arena_fit ps answer s sz al = Some (Inr (ptr', s'))"
          and bs: "bs = (case ptr' of None \<Rightarrow> [] | Some p \<Rightarrow> [(p, sz)])"
          by (auto split: sum.splits option.splits prod.splits)
        from aa None Inr v s1 fit have "new_region_alloc ps answer s sz al = Inr (ptr', s')"
          by simp
        with Fit bs show ?thesis by (intro growth [of sz al ptr']) simp_all
      next
        case (Some p)
        with Inr v res Fit fit have s': "s' = s1" "bs = [(p, sz)]" by simp_all
        from Some Inr v s' have "fit_list s rs sz al = Inr (Some p, s')" by simp
        from fit_list_Some [OF this] obtain r where "region_alloc s r sz al = Inr (Some p, s')"
          by blast
        with Fit s' show ?thesis by (intro hit [of sz al r p]) simp_all
      qed
    qed
  qed
qed

lemma valid_alignment_dvd:
  assumes "valid_request sz al"
  shows "unat al dvd 16"
proof -
  from assms have pw: "is_power_of_two al" and le: "unat al \<le> 16"
    by (simp_all add: valid_request_def alignof_max_align_t_def word_le_nat_alt)
  then obtain k where k: "k < 64" "al = 2 ^ k" by (blast dest: is_power_of_twoD)
  then have u: "unat al = 2 ^ k" by (simp add: unat_2p)
  have "k \<le> 4"
  proof (rule ccontr)
    assume "\<not> k \<le> 4"
    then have "5 \<le> k" by simp
    then have "(2::nat) ^ 5 \<le> 2 ^ k" by (intro power_increasing) simp_all
    with le u show False by simp
  qed
  then have "(2::nat) ^ k dvd 2 ^ 4" by (rule le_imp_power_dvd)
  then show ?thesis by (simp add: u)
qed

lemma region_alloc_address:
  assumes inv: "arena_inv s rs" and ra: "region_alloc s r sz al = Inr (Some p, s')"
  obtains reg where "regions s r = Some reg" and "r \<in> set rs"
    and "unat p = unat r + 24 + round_up (unat (tail reg)) (unat al)"
    and "round_up (unat (tail reg)) (unat al) + unat sz \<le> unat (capacity reg)"
    and "s' = s\<lparr>regions := (regions s)(r \<mapsto>
           reg\<lparr>tail := of_nat (round_up (unat (tail reg)) (unat al) + unat sz)\<rparr>)\<rparr>"
    and "valid_request sz al" and "0 < unat sz"
proof -
  from ra obtain reg where reg: "regions s r = Some reg"
    and c1: "\<not> capacity reg \<le> align (tail reg) al"
    and c2: "\<not> capacity reg - align (tail reg) al < sz"
    and p: "p = r + REGION_HEADER_SIZE + align (tail reg) al"
    and s': "s' = s\<lparr>regions := (regions s)(r \<mapsto> reg\<lparr>tail := align (tail reg) al + sz\<rparr>)\<rparr>"
    and req: "valid_request sz al"
    by (rule region_alloc_SomeD)
  let ?st = "align (tail reg) al"
  have "dom (regions s) = set rs" using inv by (simp add: arena_inv_def)
  with reg have rin: "r \<in> set rs" by auto
  have pl: "placed s r" using inv rin by (rule inv_placed)
  have ok: "region_ok reg" using pl reg by (rule placed_region_ok)
  have pw: "is_power_of_two al" and ale: "al \<le> alignof_max_align_t" and pos: "0 < sz"
    using req by (simp_all add: valid_request_def)
  have st: "unat ?st = round_up (unat (tail reg)) (unat al)"
    using pw region_ok_no_wrap [OF ok ale] by (rule unat_align)
  have sum: "unat (?st + sz) = unat ?st + unat sz" using c1 c2 by (rule bump_le(2))
  have "?st + sz \<le> capacity reg" using c1 c2 by (rule bump_le(1))
  then have le: "unat ?st + unat sz \<le> unat (capacity reg)" by (simp add: word_le_nat_alt sum)
  have end_le: "unat r + 24 + unat (capacity reg) \<le> 2 ^ 64"
    using pl reg by (simp add: placed_def REGION_HEADER_SIZE_def)
  have upos: "0 < unat sz" using pos by (simp add: word_less_nat_alt)
  have "unat r + unat REGION_HEADER_SIZE < 2 ^ 64"
    using end_le le upos by (simp add: REGION_HEADER_SIZE_def)
  then have "unat (r + REGION_HEADER_SIZE) = unat r + 24"
    using unat_add_const [of r REGION_HEADER_SIZE] by (simp add: REGION_HEADER_SIZE_def)
  moreover have "unat r + 24 + unat ?st < 2 ^ 64" using end_le le upos by linarith
  ultimately have addr: "unat p = unat r + 24 + unat ?st"
    unfolding p using unat_add_const [of "r + REGION_HEADER_SIZE" ?st] by simp
  have tl: "?st + sz = of_nat (round_up (unat (tail reg)) (unat al) + unat sz)"
    by (simp add: st [symmetric])
  show ?thesis
    using reg rin addr [unfolded st] le [unfolded st] s' [unfolded tl] req upos by (rule that)
qed

lemma region_alloc_address_mod:
  assumes inv: "arena_inv s rs" and ra: "region_alloc s r sz al = Inr (Some p, s')"
  shows "unat p mod unat al = 24 mod unat al"
proof -
  from inv ra obtain reg where reg: "regions s r = Some reg" and rin: "r \<in> set rs"
    and addr: "unat p = unat r + 24 + round_up (unat (tail reg)) (unat al)"
    and req: "valid_request sz al"
    by (rule region_alloc_address)
  have "unat r mod 16 = 0" using inv_placed [OF inv rin] reg by (simp add: placed_def)
  then have "16 dvd unat r" by (simp add: mod_eq_0_iff_dvd)
  with valid_alignment_dvd [OF req] have d1: "unat al dvd unat r" by (rule dvd_trans)
  have d2: "unat al dvd round_up (unat (tail reg)) (unat al)" by (simp add: round_up_def)
  from d1 d2 have "unat al dvd unat r + round_up (unat (tail reg)) (unat al)" by (rule dvd_add)
  then obtain m where m: "unat r + round_up (unat (tail reg)) (unat al) = unat al * m" ..
  have "unat p = unat al * m + 24" using addr m by simp
  then show ?thesis by simp
qed

lemma returned_pointer_mod:
  assumes page: "page_ok ps" and cr: "create_arena ps a0 cap0 = Inr s0"
    and run: "run ps s0 calls = Some (Inr (bs, s))"
    and c: "c = Alloc sz al \<or> c = Fit sz al"
    and res: "do_call ps answer s c = Some (Inr ([(p, n)], s'))"
  shows "unat p mod unat al = 24 mod unat al"
proof -
  from reachable_inv [OF page cr run] obtain rs where inv: "arena_inv s rs" by blast
  from inv page res show ?thesis
  proof (cases rule: do_call_cases)
    case (config cap)
    then show ?thesis by simp
  next
    case (hit sz' al' r p')
    with c have "region_alloc s r sz al = Inr (Some p, s')" by auto
    with inv show ?thesis by (rule region_alloc_address_mod)
  next
    case (grow sz' al' q l ptr)
    let ?msz = "align_to_page ps (max sz' (new_region_capacity s) + REGION_HEADER_SIZE)"
    have g: "arena_inv (grown s q ?msz l) (rs @ [q])"
      using inv page grow(2) align_to_page_mod [OF page] grow(3) by (rule inv_grow)
    from grow(5) have "ptr = Some p" by (cases ptr) simp_all
    with grow c have "region_alloc (grown s q ?msz l) q sz al = Inr (Some p, s')" by auto
    with g show ?thesis by (rule region_alloc_address_mod)
  qed
qed

lemma returned_pointer_aligned:
  assumes "page_ok ps" and "create_arena ps a0 cap0 = Inr s0"
    and "run ps s0 calls = Some (Inr (bs, s))"
    and "c = Alloc sz al \<or> c = Fit sz al"
    and "do_call ps answer s c = Some (Inr ([(p, n)], s'))"
    and "al \<in> {1, 2, 4, 8}"
  shows "unat p mod unat al = 0"
  using returned_pointer_mod [OF assms(1-5)] assms(6) by auto

lemma returned_pointer_misaligned:
  assumes "page_ok ps" and "create_arena ps a0 cap0 = Inr s0"
    and "run ps s0 calls = Some (Inr (bs, s))"
    and "c = Alloc sz 16 \<or> c = Fit sz 16"
    and "do_call ps answer s c = Some (Inr ([(p, n)], s'))"
  shows "unat p mod 16 = 8"
  using returned_pointer_mod [OF assms] by simp

lemma separate_sym: "separate b c \<Longrightarrow> separate c b"
  by (auto simp add: separate_def)

lemma separate_disjoint: "separate b c \<Longrightarrow> span b \<inter> span c = {}"
  by (auto simp add: separate_def span_def)

lemma disjoint_separate:
  assumes "span b \<inter> span c = {}" and "0 < unat (snd b)" and "0 < unat (snd c)"
  shows "separate b c"
proof (rule ccontr)
  assume n: "\<not> separate b c"
  let ?a = "max (unat (fst b)) (unat (fst c))"
  from n assms(2,3) have "?a \<in> span b" "?a \<in> span c"
    by (auto simp add: separate_def span_def)
  with assms(1) show False by auto
qed

lemma pairwise_separate_map:
  assumes "pairwise_separate (map f xs)" and "distinct xs"
    and "x \<in> set xs" and "y \<in> set xs" and "x \<noteq> y"
  shows "separate (f x) (f y)"
  using assms
proof (induction xs)
  case Nil
  then show ?case by simp
next
  case (Cons a xs)
  show ?case
  proof (cases "x = a")
    case True
    with Cons.prems have "y \<in> set xs" by auto
    with Cons.prems True show ?thesis by (auto simp add: list_all_iff)
  next
    case False
    show ?thesis
    proof (cases "y = a")
      case True
      with Cons.prems False have "x \<in> set xs" by auto
      with Cons.prems True have "separate (f y) (f x)" by (auto simp add: list_all_iff)
      then show ?thesis by (rule separate_sym)
    next
      case False
      with \<open>x \<noteq> a\<close> Cons.prems Cons.IH show ?thesis by auto
    qed
  qed
qed

lemma inv_blocks_disjoint:
  assumes inv: "arena_inv s rs" and "r \<in> set rs" and "r2 \<in> set rs" and "r \<noteq> r2"
  shows "span (block_of s r) \<inter> span (block_of s r2) = {}"
proof -
  from inv have "pairwise_separate (map (block_of s) (rev rs))" and "distinct (rev rs)"
    unfolding arena_inv_def by auto
  then have "separate (block_of s r) (block_of s r2)"
    using assms(2-4) by (intro pairwise_separate_map [of "block_of s" "rev rs"]) simp_all
  then show ?thesis by (rule separate_disjoint)
qed

lemma inv_payload_in_block:
  assumes inv: "arena_inv s rs" and rin: "r \<in> set rs" and reg: "regions s r = Some reg"
    and "unat r + 24 \<le> a" and "a < unat r + 24 + unat (capacity reg)"
  shows "a \<in> span (block_of s r)"
  using inv_placed [OF inv rin] reg assms(4,5)
  by (auto simp add: placed_def span_def REGION_HEADER_SIZE_def)

lemma bump_free_space:
  assumes inv: "arena_inv s rs" and ra: "region_alloc s r sz al = Inr (Some p, s')"
  shows "free_space s' \<subseteq> free_space s" and "span (p, sz) \<subseteq> free_space s"
    and "span (p, sz) \<inter> free_space s' = {}" and "0 < unat sz"
proof -
  from inv ra obtain reg where reg: "regions s r = Some reg" and rin: "r \<in> set rs"
    and addr: "unat p = unat r + 24 + round_up (unat (tail reg)) (unat al)"
    and le: "round_up (unat (tail reg)) (unat al) + unat sz \<le> unat (capacity reg)"
    and s': "s' = s\<lparr>regions := (regions s)(r \<mapsto>
           reg\<lparr>tail := of_nat (round_up (unat (tail reg)) (unat al) + unat sz)\<rparr>)\<rparr>"
    and req: "valid_request sz al" and pos: "0 < unat sz"
    by (rule region_alloc_address)
  let ?ru = "round_up (unat (tail reg)) (unat al)"
  show "0 < unat sz" by (rule pos)
  have "0 < unat al" using req by (simp add: valid_request_def is_power_of_two_def unat_gt_0)
  then have ge: "unat (tail reg) \<le> ?ru" by (rule round_up_ge)
  have "unat (capacity reg) < 2 ^ 64" using unsigned_less [of "capacity reg"] by simp
  with le have lt: "?ru + unat sz < 2 ^ 64" by simp
  have tl: "unat (of_nat (?ru + unat sz) :: size_t) = ?ru + unat sz"
  proof -
    define n where "n = ?ru + unat sz"
    have "unat (of_nat n :: size_t) = n mod 2 ^ LENGTH(64)" by (rule unat_of_nat)
    also have "\<dots> = n" using lt by (simp add: n_def)
    finally show ?thesis by (simp only: n_def)
  qed
  have dom: "dom (regions s) = set rs" using inv by (simp add: arena_inv_def)
  show sub: "free_space s' \<subseteq> free_space s"
  proof
    fix a assume "a \<in> free_space s'"
    then consider (out) "\<forall>b\<in>set (mapped s). a \<notin> span b"
      | (pay) r2 reg2 where "regions s' r2 = Some reg2"
          "unat r2 + 24 + unat (tail reg2) \<le> a" "a < unat r2 + 24 + unat (capacity reg2)"
      by (auto simp add: free_space_def s')
    then show "a \<in> free_space s"
    proof cases
      case out
      then show ?thesis by (simp add: free_space_def)
    next
      case pay
      show ?thesis
      proof (cases "r2 = r")
        case True
        with pay reg ge tl have "unat r + 24 + unat (tail reg) \<le> a"
          "a < unat r + 24 + unat (capacity reg)"
          by (auto simp add: s')
        with reg show ?thesis unfolding free_space_def by blast
      next
        case False
        with pay have "regions s r2 = Some reg2" by (simp add: s')
        with pay(2,3) show ?thesis unfolding free_space_def by blast
      qed
    qed
  qed
  show "span (p, sz) \<subseteq> free_space s"
  proof
    fix a assume "a \<in> span (p, sz)"
    then have "unat r + 24 + ?ru \<le> a" "a < unat r + 24 + ?ru + unat sz"
      by (simp_all add: span_def addr)
    with ge le have "unat r + 24 + unat (tail reg) \<le> a" "a < unat r + 24 + unat (capacity reg)"
      by simp_all
    with reg show "a \<in> free_space s" unfolding free_space_def by blast
  qed
  show "span (p, sz) \<inter> free_space s' = {}"
  proof (rule ccontr)
    assume "span (p, sz) \<inter> free_space s' \<noteq> {}"
    then obtain a where a: "a \<in> span (p, sz)" and f: "a \<in> free_space s'" by auto
    from a have lo: "unat r + 24 + ?ru \<le> a" and hi: "a < unat r + 24 + ?ru + unat sz"
      by (simp_all add: span_def addr)
    from lo hi le have inr: "a \<in> span (block_of s r)"
      by (intro inv_payload_in_block [OF inv rin reg]) simp_all
    from f consider (out) "\<forall>b\<in>set (mapped s). a \<notin> span b"
      | (pay) r2 reg2 where "regions s' r2 = Some reg2"
          "unat r2 + 24 + unat (tail reg2) \<le> a" "a < unat r2 + 24 + unat (capacity reg2)"
      by (auto simp add: free_space_def s')
    then show False
    proof cases
      case out
      with inv_block_mapped [OF inv rin] inr show False by blast
    next
      case pay
      show False
      proof (cases "r2 = r")
        case True
        with pay tl hi show False by (auto simp add: s')
      next
        case False
        with pay have reg2: "regions s r2 = Some reg2" by (simp add: s')
        with dom have r2in: "r2 \<in> set rs" by auto
        from pay(2,3) have "a \<in> span (block_of s r2)"
          by (intro inv_payload_in_block [OF inv r2in reg2]) simp_all
        with inr inv_blocks_disjoint [OF inv rin r2in] False show False by auto
      qed
    qed
  qed
qed

lemma grow_free_space:
  assumes inv: "arena_inv s rs" and page: "page_ok ps"
    and mm: "mmap ps (mapped s) answer msz = Some q"
    and mult: "unat msz mod unat ps = 0"
    and l: "regions s (last_region s) = Some l"
  shows "free_space (grown s q msz l) \<subseteq> free_space s"
proof
  fix a assume a: "a \<in> free_space (grown s q msz l)"
  have nz: "msz \<noteq> 0" and sep: "list_all (separate (q, msz)) (mapped s)"
    using mmap_SomeD [OF mm] by simp_all
  have fresh: "q \<notin> set rs" using inv sep nz by (rule inv_fresh)
  then have ql: "q \<noteq> last_region s" using inv_last [OF inv] by auto
  have ge: "64 \<le> unat msz"
    using page_multiple_ge [OF page nz mult] page_ok_ge [OF page] by simp
  have cap: "unat (msz - REGION_HEADER_SIZE) = unat msz - 24"
    using ge unat_sub_const [of REGION_HEADER_SIZE msz] by (simp add: REGION_HEADER_SIZE_def)
  from a consider (out) "\<forall>b\<in>set (mapped s). a \<notin> span b"
    | (pay) r2 reg2 where "regions (grown s q msz l) r2 = Some reg2"
        "unat r2 + 24 + unat (tail reg2) \<le> a" "a < unat r2 + 24 + unat (capacity reg2)"
    by (auto simp add: free_space_def grown_def)
  then show "a \<in> free_space s"
  proof cases
    case out
    then show ?thesis by (simp add: free_space_def)
  next
    case pay
    show ?thesis
    proof (cases "r2 = q")
      case True
      with pay ql cap ge have "a \<in> span (q, msz)"
        by (auto simp add: grown_def span_def)
      moreover have "span (q, msz) \<inter> span b = {}" if "b \<in> set (mapped s)" for b
        using sep that by (intro separate_disjoint) (simp add: list_all_iff)
      ultimately have "\<forall>b\<in>set (mapped s). a \<notin> span b" by auto
      then show ?thesis by (simp add: free_space_def)
    next
      case False
      show ?thesis
      proof (cases "r2 = last_region s")
        case True
        with pay False l have "unat (last_region s) + 24 + unat (tail l) \<le> a"
          "a < unat (last_region s) + 24 + unat (capacity l)"
          by (auto simp add: grown_def)
        with l show ?thesis unfolding free_space_def by blast
      next
        case False
        with pay \<open>r2 \<noteq> q\<close> have "regions s r2 = Some reg2" by (simp add: grown_def)
        with pay(2,3) show ?thesis unfolding free_space_def by blast
      qed
    qed
  qed
qed

lemma set_region_capacity_free_space:
  "free_space (set_region_capacity s cap) = free_space s"
  by (simp add: free_space_def set_region_capacity_def)

lemma do_call_free_space:
  assumes inv: "arena_inv s rs" and page: "page_ok ps"
    and res: "do_call ps answer s c = Some (Inr (bs, s'))"
  shows "free_space s' \<subseteq> free_space s"
    and "length bs \<le> 1"
    and "\<forall>b\<in>set bs. span b \<subseteq> free_space s \<and> span b \<inter> free_space s' = {} \<and> 0 < unat (snd b)"
proof -
  have "free_space s' \<subseteq> free_space s \<and> length bs \<le> 1
    \<and> (\<forall>b\<in>set bs. span b \<subseteq> free_space s \<and> span b \<inter> free_space s' = {}
          \<and> 0 < unat (snd b))"
    using inv page res
  proof (cases rule: do_call_cases)
    case (config cap)
    then show ?thesis by (simp add: set_region_capacity_free_space)
  next
    case (hit sz al r p)
    from bump_free_space [OF inv hit(2)] hit(3) show ?thesis by simp
  next
    case (grow sz al q l ptr)
    let ?msz = "align_to_page ps (max sz (new_region_capacity s) + REGION_HEADER_SIZE)"
    let ?g = "grown s q ?msz l"
    have g: "arena_inv ?g (rs @ [q])"
      using inv page grow(2) align_to_page_mod [OF page] grow(3) by (rule inv_grow)
    have fg: "free_space ?g \<subseteq> free_space s"
      using inv page grow(2) align_to_page_mod [OF page] grow(3) by (rule grow_free_space)
    show ?thesis
    proof (cases ptr)
      case None
      with grow(4) have "s' = ?g" by (auto dest: region_alloc_None_same)
      with None grow(5) fg show ?thesis by simp
    next
      case (Some p)
      with grow(4) have ra: "region_alloc ?g q sz al = Inr (Some p, s')" by simp
      from bump_free_space [OF g ra] fg Some grow(5) show ?thesis by auto
    qed
  qed
  then show "free_space s' \<subseteq> free_space s" and "length bs \<le> 1"
    and "\<forall>b\<in>set bs. span b \<subseteq> free_space s \<and> span b \<inter> free_space s' = {} \<and> 0 < unat (snd b)"
    by simp_all
qed

lemma run_free_space:
  assumes "arena_inv s rs" and "page_ok ps"
    and "run ps s calls = Some (Inr (bs, s'))"
  shows "pairwise_separate bs
     \<and> (\<forall>b\<in>set bs. span b \<subseteq> free_space s \<and> 0 < unat (snd b))"
  using assms
proof (induction calls arbitrary: s rs bs)
  case Nil
  then show ?case by simp
next
  case (Cons ac calls)
  obtain answer c where ac: "ac = (answer, c)" by (cases ac)
  from Cons.prems(3) obtain b1 s1 b2 where
    c1: "do_call ps answer s c = Some (Inr (b1, s1))"
    and c2: "run ps s1 calls = Some (Inr (b2, s'))"
    and bs: "bs = b1 @ b2"
    by (auto simp add: ac split: sum.splits option.splits prod.splits)
  note step = do_call_free_space [OF Cons.prems(1,2) c1]
  from do_call_inv [OF Cons.prems(1,2) c1] obtain r1 where inv1: "arena_inv s1 (rs @ r1)"
    by blast
  from Cons.IH [OF inv1 Cons.prems(2) c2]
  have ih: "pairwise_separate b2" "\<forall>b\<in>set b2. span b \<subseteq> free_space s1 \<and> 0 < unat (snd b)"
    by simp_all
  have in_s: "\<forall>b\<in>set bs. span b \<subseteq> free_space s \<and> 0 < unat (snd b)"
    using step(1,3) ih(2) by (auto simp add: bs)
  have "pairwise_separate (b1 @ b2)"
  proof (cases b1)
    case Nil
    with ih(1) show ?thesis by simp
  next
    case (Cons b rest)
    with step(2) have b1: "b1 = [b]" by simp
    have "separate b c" if "c \<in> set b2" for c
    proof -
      from step(3) b1 have "span b \<inter> free_space s1 = {}" "0 < unat (snd b)" by simp_all
      moreover from ih(2) that have "span c \<subseteq> free_space s1" "0 < unat (snd c)" by simp_all
      ultimately show ?thesis by (intro disjoint_separate) auto
    qed
    with ih(1) b1 show ?thesis by (simp add: list_all_iff)
  qed
  with in_s show ?case by (simp add: bs)
qed

lemma returned_blocks_separate:
  assumes "page_ok ps" and "create_arena ps answer cap = Inr s0"
    and "run ps s0 calls = Some (Inr (bs, s))"
  shows "pairwise_separate bs"
proof -
  have "arena_inv s0 [first_region s0]" using assms(1,2) by (rule create_arena_inv)
  from run_free_space [OF this assms(1,3)] show ?thesis by simp
qed

text \<open>
  C1. The blocks returned by a run of valid allocations are pairwise non-overlapping
  (\<open>returned_blocks_separate\<close>), and a returned address is a multiple of the requested
  alignment when that is 1, 2, 4 or 8 (\<open>returned_pointer_aligned\<close>). For the alignment
  16, which the assertion of \<open>region_alloc\<close> admits, it is not: the payload starts 24
  bytes after a region's address, itself a multiple of 16, so that every address returned
  is 8 modulo 16 (\<open>returned_pointer_misaligned\<close>). The first allocation on a fresh
  arena shows it.
\<close>

theorem arena_alloc_misaligned:
  "create_arena 4096 (Some 0x10000) 64 = Inr example_arena
   \<and> valid_request 16 16
   \<and> arena_alloc 4096 None example_arena 16 16
       = Inr (Some 0x10028,
              example_arena\<lparr>regions := [0x10010 \<mapsto>
                \<lparr>next_region = None, tail = 16, capacity = 4056, data = (\<lambda>_. 0)\<rparr>]\<rparr>)
   \<and> unat (0x10028 :: ptr) mod unat (16 :: size_t) = 8"
  by (simp add: eval_defs example_arena_def)

end
